theory Spec2Isabelle
  imports Main
begin

unbundle bit_operations_syntax

section \<open>Configuration constants and address arithmetic\<close>

text \<open>
  The allocator of this repository exists in two versions. The finished one is the file
  whose name is not recorded (it has the base case of \<^verbatim>\<open>split\<close>, the inclusive scan
  and the address-returning \<^verbatim>\<open>buddy_alloc\<close>); \<^verbatim>\<open>buddy.c\<close> is an earlier draft of the
  same functions. The embedding below follows the finished version line by line.

  Addresses are byte offsets from \<^verbatim>\<open>g_memory\<close>, so the arena is the set of offsets
  below \<^verbatim>\<open>MEMORY_AREA\<close>; the null pointer is a value of its own. Orders and page
  indices are natural numbers; the \<^verbatim>\<open>block_size\<close> field is an \<^verbatim>\<open>int\<close> because the code
  stores \<^verbatim>\<open>-1\<close> in it. No value in the program comes near the limits of a C
  \<^verbatim>\<open>int\<close>.
\<close>

definition MIN_ORDER :: nat where
  "MIN_ORDER = 12"

definition MAX_ORDER :: nat where
  "MAX_ORDER = 20"

definition MEMORY_AREA :: nat where
  "MEMORY_AREA = 2 ^ MAX_ORDER"

definition PAGE_SIZE :: nat where
  "PAGE_SIZE = 2 ^ MIN_ORDER"

definition PAGE_NUM :: nat where
  "PAGE_NUM = MEMORY_AREA div PAGE_SIZE"

definition PAGE_TO_ADDR :: "nat \<Rightarrow> nat" where
  "PAGE_TO_ADDR page_idx = page_idx * PAGE_SIZE"

definition ADDR_TO_PAGE :: "nat \<Rightarrow> nat" where
  "ADDR_TO_PAGE addr = addr div PAGE_SIZE"

definition BUDDY_ADDR :: "nat \<Rightarrow> nat \<Rightarrow> nat" where
  "BUDDY_ADDR addr k = addr XOR 2 ^ k"

section \<open>Page records, free lists and the allocator state\<close>

record page_t =
  block_size :: int
  page_index :: nat
  block_address :: nat

text \<open>
  The three global arrays. \<^verbatim>\<open>g_memory\<close> itself is never read or written by the
  allocator, so only its extent appears (as \<^verbatim>\<open>MEMORY_AREA\<close>). \<^verbatim>\<open>free_area\<close> maps an
  order to the page indices linked into that order's list, the head of the list first.
\<close>

record state =
  free_area :: "nat \<Rightarrow> nat list"
  g_pages :: "nat \<Rightarrow> page_t"

datatype fault = Out_of_bounds | Uninitialised_list

datatype pointer = NULL | Addr nat

text \<open>
  Modelled from the spec: the header \<^verbatim>\<open>list.h\<close> (the intrusive circular list with
  \<^verbatim>\<open>INIT_LIST_HEAD\<close>, \<^verbatim>\<open>list_add\<close>, \<^verbatim>\<open>list_del\<close>, \<^verbatim>\<open>list_empty\<close>, \<^verbatim>\<open>list_entry\<close> and
  \<^verbatim>\<open>list_for_each\<close>) is not among the sources. Following the spec's data model, a free
  list is an ordered list of page records; \<^verbatim>\<open>list_add\<close> inserts at the head,
  \<^verbatim>\<open>list_del\<close> unlinks the given record from the list it was read from,
  \<^verbatim>\<open>list_empty\<close> tests for the empty list, \<^verbatim>\<open>list_entry(head.next)\<close> is the first
  record and \<^verbatim>\<open>list_for_each\<close> visits the records from the head on.
\<close>

definition list_add :: "nat \<Rightarrow> nat \<Rightarrow> state \<Rightarrow> state" where
  "list_add page i st = st\<lparr>free_area := (free_area st)(i := page # free_area st i)\<rparr>"

definition list_del :: "nat \<Rightarrow> nat \<Rightarrow> state \<Rightarrow> state" where
  "list_del page i st = st\<lparr>free_area := (free_area st)(i := remove1 page (free_area st i))\<rparr>"

definition list_empty :: "nat \<Rightarrow> state \<Rightarrow> bool" where
  "list_empty i st = (free_area st i = [])"

definition set_block_size :: "nat \<Rightarrow> int \<Rightarrow> state \<Rightarrow> state" where
  "set_block_size p v st = st\<lparr>g_pages := (g_pages st)(p := (g_pages st p)\<lparr>block_size := v\<rparr>)\<rparr>"

section \<open>buddy_init\<close>

definition init_page :: "nat \<Rightarrow> page_t" where
  "init_page i = \<lparr>block_size = - 1, page_index = i, block_address = PAGE_TO_ADDR i\<rparr>"

text \<open>
  The first loop rewrites every page record, the second empties the lists of the orders
  \<^verbatim>\<open>MIN_ORDER .. MAX_ORDER\<close>; then page 0 is linked into the list of \<^verbatim>\<open>MAX_ORDER\<close> and
  its \<^verbatim>\<open>block_size\<close> is set to \<^verbatim>\<open>MAX_ORDER\<close>.
\<close>

definition buddy_init :: "state \<Rightarrow> state" where
  "buddy_init st =
     (let n_pages = 2 ^ MAX_ORDER div PAGE_SIZE;
          pages = fold (\<lambda>i pg. pg(i := init_page i)) [0..<n_pages] (g_pages st);
          lists = fold (\<lambda>i fa. fa(i := [])) [MIN_ORDER..<Suc MAX_ORDER] (free_area st);
          st1 = \<lparr>free_area = lists, g_pages = pages\<rparr>
      in set_block_size 0 (int MAX_ORDER) (list_add 0 MAX_ORDER st1))"

section \<open>order_exp\<close>

function order_exp_loop :: "int \<Rightarrow> nat \<Rightarrow> nat" where
  "order_exp_loop sz order_num =
     (if 2 ^ order_num < sz \<and> order_num < MAX_ORDER
      then order_exp_loop sz (order_num + 1)
      else order_num)"
  by pat_completeness auto
termination
  by (relation "measure (\<lambda>(sz, order_num). MAX_ORDER - order_num)") auto

declare order_exp_loop.simps [simp del]

definition order_exp :: "int \<Rightarrow> nat" where
  "order_exp sz = order_exp_loop sz MIN_ORDER"

section \<open>split\<close>

text \<open>
  \<^verbatim>\<open>split\<close> links the upper half of the block at page \<^verbatim>\<open>index\<close> into the list one
  order down and recurses until the target order is reached. It writes no
  \<^verbatim>\<open>block_size\<close>. The C function has no check of its arguments: an index of
  \<^verbatim>\<open>free_area\<close> outside the array, a list head that \<^verbatim>\<open>buddy_init\<close> never initialised
  (orders below \<^verbatim>\<open>MIN_ORDER\<close>) and a page index outside \<^verbatim>\<open>g_pages\<close> have no defined
  behaviour in C; the model returns a fault there.
\<close>

function split :: "nat \<Rightarrow> nat \<Rightarrow> nat \<Rightarrow> state \<Rightarrow> fault + state" where
  "split order targetOrder index st =
     (if order = targetOrder then Inr st
      else if order = 0 \<or> MAX_ORDER < order - 1 then Inl Out_of_bounds
      else if order - 1 < MIN_ORDER then Inl Uninitialised_list
      else
        (let cur_page = ADDR_TO_PAGE (BUDDY_ADDR (PAGE_TO_ADDR index) (order - 1)) in
         if PAGE_NUM \<le> cur_page then Inl Out_of_bounds
         else split (order - 1) targetOrder index (list_add cur_page (order - 1) st)))"
  by pat_completeness auto
termination
  by (relation "measure (\<lambda>(order, targetOrder, index, st). order)") auto

declare split.simps [simp del]

section \<open>buddy_alloc\<close>

text \<open>
  The loop of \<^verbatim>\<open>buddy_alloc\<close>, from \<^verbatim>\<open>i = order\<close> up to \<^verbatim>\<open>MAX_ORDER\<close> inclusive. On the
  branch \<^verbatim>\<open>i == order\<close> the record is unlinked and its address returned, and nothing else
  is written; on the other branch \<^verbatim>\<open>block_size\<close> is set to the order and the block is
  split. There is no check of \<^verbatim>\<open>size\<close> in this version. The loop starts at
  \<^verbatim>\<open>order_exp(size)\<close>, which is never below \<^verbatim>\<open>MIN_ORDER\<close>, so every list it reads is
  an initialised one.
\<close>

function alloc_loop :: "nat \<Rightarrow> nat \<Rightarrow> state \<Rightarrow> fault + pointer \<times> state" where
  "alloc_loop i order st =
     (if i \<le> MAX_ORDER then
        (if \<not> list_empty i st then
           (let entry = hd (free_area st i) in
            if i = order then
              Inr (Addr (block_address (g_pages st entry)), list_del entry i st)
            else
              (let cur_index = page_index (g_pages st entry);
                   st1 = list_del entry i st;
                   st2 = set_block_size entry (int order) st1
               in case split i order cur_index st2 of
                    Inl f \<Rightarrow> Inl f
                  | Inr st3 \<Rightarrow> Inr (Addr (block_address (g_pages st3 entry)), st3)))
         else alloc_loop (i + 1) order st)
      else Inr (NULL, st))"
  by pat_completeness auto
termination
  by (relation "measure (\<lambda>(i, order, st). Suc MAX_ORDER - i)") auto

declare alloc_loop.simps [simp del]

definition buddy_alloc :: "int \<Rightarrow> state \<Rightarrow> fault + pointer \<times> state" where
  "buddy_alloc sz st = (let order = order_exp sz in alloc_loop order order st)"

section \<open>buddy_free\<close>

text \<open>
  The inner \<^verbatim>\<open>list_for_each\<close>: \<^verbatim>\<open>buddy_block\<close> starts as the null pointer, is set to
  each record visited, and the scan stops at the first record whose address is the
  buddy's. After an unsuccessful scan of a non-empty list it is the last record.
\<close>

fun scan_list :: "(nat \<Rightarrow> page_t) \<Rightarrow> nat \<Rightarrow> nat option \<Rightarrow> nat list \<Rightarrow> nat option" where
  "scan_list pg target buddy_block [] = buddy_block"
| "scan_list pg target buddy_block (x # xs) =
     (if block_address (pg x) = target then Some x
      else scan_list pg target (Some x) xs)"

text \<open>
  The outer loop, from \<^verbatim>\<open>i = free_order\<close> up to \<^verbatim>\<open>MAX_ORDER\<close>. Reading
  \<^verbatim>\<open>free_area[i]\<close> for an order below \<^verbatim>\<open>MIN_ORDER\<close> is a fault, as in \<^verbatim>\<open>split\<close>.
\<close>

function free_loop :: "nat \<Rightarrow> nat \<Rightarrow> nat \<Rightarrow> state \<Rightarrow> fault + state" where
  "free_loop i addr free_index st =
     (if i \<le> MAX_ORDER then
        (if i < MIN_ORDER then Inl Uninitialised_list
         else
           (case scan_list (g_pages st) (BUDDY_ADDR addr i) None (free_area st i) of
              None \<Rightarrow> Inr (list_add free_index i (set_block_size free_index (- 1) st))
            | Some buddy_block \<Rightarrow>
                if block_address (g_pages st buddy_block) \<noteq> BUDDY_ADDR addr i then
                  Inr (list_add free_index i (set_block_size free_index (- 1) st))
                else if addr > block_address (g_pages st buddy_block) then
                  free_loop (i + 1) (block_address (g_pages st buddy_block))
                    (ADDR_TO_PAGE (block_address (g_pages st buddy_block)))
                    (list_del buddy_block i st)
                else free_loop (i + 1) addr free_index (list_del buddy_block i st)))
      else Inr st)"
  by pat_completeness auto
termination
  by (relation "measure (\<lambda>(i, addr, free_index, st). Suc MAX_ORDER - i)") auto

declare free_loop.simps [simp del]

text \<open>
  \<^verbatim>\<open>buddy_free\<close> reads the order from the page record of the address, with no check of
  either. An address outside the arena indexes \<^verbatim>\<open>g_pages\<close> out of bounds, and a
  negative order indexes \<^verbatim>\<open>free_area\<close> out of bounds in the first iteration.
\<close>

definition buddy_free :: "nat \<Rightarrow> state \<Rightarrow> fault + state" where
  "buddy_free addr st =
     (let free_index = ADDR_TO_PAGE addr in
      if PAGE_NUM \<le> free_index then Inl Out_of_bounds
      else
        (let free_order = block_size (g_pages st free_index) in
         if free_order < 0 then Inl Out_of_bounds
         else free_loop (nat free_order) addr free_index st))"

section \<open>Sequences of calls\<close>

text \<open>
  A client of the allocator: a sequence of \<^verbatim>\<open>buddy_alloc\<close> and \<^verbatim>\<open>buddy_free\<close>
  calls. Beside the allocator state it keeps the list of live allocations, each as the
  address returned and the order \<^verbatim>\<open>order_exp(size)\<close> of the request. A \<^verbatim>\<open>Free\<close> is
  accepted only for an address that is live, so it is never a double free; a sequence
  stops (with \<^verbatim>\<open>None\<close>) at such a call and at a call that faults.
\<close>

datatype call = Alloc int | Free nat

type_synonym client = "state \<times> (nat \<times> nat) list"

fun step :: "call \<Rightarrow> client \<Rightarrow> client option" where
  "step (Alloc sz) (st, live) =
     (case buddy_alloc sz st of
        Inl f \<Rightarrow> None
      | Inr (NULL, st') \<Rightarrow> Some (st', live)
      | Inr (Addr a, st') \<Rightarrow> Some (st', (a, order_exp sz) # live))"
| "step (Free a) (st, live) =
     (case map_of live a of
        None \<Rightarrow> None
      | Some k \<Rightarrow>
          (case buddy_free a st of
             Inl f \<Rightarrow> None
           | Inr st' \<Rightarrow> Some (st', filter (\<lambda>b. fst b \<noteq> a) live)))"

fun run :: "call list \<Rightarrow> client \<Rightarrow> client option" where
  "run [] c = Some c"
| "run (x # xs) c = (case step x c of None \<Rightarrow> None | Some c' \<Rightarrow> run xs c')"

text \<open>
  The globals before the first \<^verbatim>\<open>buddy_init\<close>: static storage, all zero. Nothing of it
  within the arrays survives \<^verbatim>\<open>buddy_init\<close>.
\<close>

definition startup :: state where
  "startup = \<lparr>free_area = (\<lambda>i. []),
     g_pages = (\<lambda>p. \<lparr>block_size = 0, page_index = 0, block_address = 0\<rparr>)\<rparr>"

section \<open>Observing a client\<close>

text \<open>
  The byte extent of a block, the blocks that the free lists record (address and order,
  for the orders \<^verbatim>\<open>MIN_ORDER .. MAX_ORDER\<close>), and whether some free or live block holds
  a given byte.
\<close>

definition in_block :: "nat \<Rightarrow> nat \<times> nat \<Rightarrow> bool" where
  "in_block x b = (fst b \<le> x \<and> x < fst b + 2 ^ snd b)"

definition blocks_of_order :: "state \<Rightarrow> nat \<Rightarrow> (nat \<times> nat) list" where
  "blocks_of_order st i = map (\<lambda>p. (PAGE_TO_ADDR p, i)) (free_area st i)"

definition free_blocks :: "state \<Rightarrow> (nat \<times> nat) list" where
  "free_blocks st = concat (map (blocks_of_order st) [MIN_ORDER..<Suc MAX_ORDER])"

definition covered :: "client \<Rightarrow> nat \<Rightarrow> bool" where
  "covered c x = list_ex (in_block x) (free_blocks (fst c) @ snd c)"

definition free_lists :: "client \<Rightarrow> nat list list" where
  "free_lists c = map (free_area (fst c)) [MIN_ORDER..<Suc MAX_ORDER]"

definition order_field :: "nat \<Rightarrow> client \<Rightarrow> int" where
  "order_field p c = block_size (g_pages (fst c) p)"

section \<open>Blocks and the invariant of the allocator\<close>

text \<open>
  A block is a pair of a byte address and an order; it occupies \<^verbatim>\<open>2^order\<close> bytes from
  its address. Two blocks overlap when their byte ranges meet.
\<close>

definition overlap :: "nat \<times> nat \<Rightarrow> nat \<times> nat \<Rightarrow> bool" where
  "overlap b c = (fst b < fst c + 2 ^ snd c \<and> fst c < fst b + 2 ^ snd b)"

text \<open>
  The invariant that every state reached by calls from \<^verbatim>\<open>buddy_init\<close> satisfies. The
  page records of the array carry their own index and address. The blocks recorded in
  the free lists (\<^verbatim>\<open>free_set\<close>) and the live blocks of the client have a valid order,
  are aligned to their size, lie in the arena and never overlap each other; no list holds
  a page twice. The order field of the first page of a free or live block never exceeds
  the order of the block, and a page with an order field \<^verbatim>\<open>b >= 0\<close> lies at a multiple
  of \<^verbatim>\<open>2^(b+1)\<close> (it was the lower half of a split).
\<close>

definition valid_order :: "nat \<Rightarrow> bool" where
  "valid_order i = (MIN_ORDER \<le> i \<and> i \<le> MAX_ORDER)"

definition pages_ok :: "state \<Rightarrow> bool" where
  "pages_ok st = (\<forall>p<PAGE_NUM. page_index (g_pages st p) = p \<and>
     block_address (g_pages st p) = PAGE_TO_ADDR p)"

definition sizes_ok :: "state \<Rightarrow> bool" where
  "sizes_ok st = (\<forall>p<PAGE_NUM. block_size (g_pages st p) = - 1 \<or>
     (int MIN_ORDER \<le> block_size (g_pages st p) \<and> block_size (g_pages st p) \<le> int MAX_ORDER \<and>
      2 ^ Suc (nat (block_size (g_pages st p))) dvd PAGE_TO_ADDR p))"

definition lists_distinct :: "state \<Rightarrow> bool" where
  "lists_distinct st = (\<forall>i. valid_order i \<longrightarrow> distinct (free_area st i))"

definition free_set :: "state \<Rightarrow> (nat \<times> nat) set" where
  "free_set st = {(PAGE_TO_ADDR p, i) | p i. valid_order i \<and> p \<in> set (free_area st i)}"

definition aligned_block :: "nat \<times> nat \<Rightarrow> bool" where
  "aligned_block b = (valid_order (snd b) \<and> 2 ^ snd b dvd fst b \<and> fst b < MEMORY_AREA)"

definition order_le :: "state \<Rightarrow> nat \<times> nat \<Rightarrow> bool" where
  "order_le st b = (block_size (g_pages st (ADDR_TO_PAGE (fst b))) \<le> int (snd b))"

definition pairwise_apart :: "(nat \<times> nat) set \<Rightarrow> bool" where
  "pairwise_apart U = (\<forall>b\<in>U. \<forall>c\<in>U. b \<noteq> c \<longrightarrow> \<not> overlap b c)"

definition allocator_inv :: "client \<Rightarrow> bool" where
  "allocator_inv c =
     (pages_ok (fst c) \<and> sizes_ok (fst c) \<and> lists_distinct (fst c) \<and> distinct (snd c) \<and>
      free_set (fst c) \<inter> set (snd c) = {} \<and>
      (\<forall>b \<in> free_set (fst c) \<union> set (snd c). aligned_block b \<and> order_le (fst c) b) \<and>
      pairwise_apart (free_set (fst c) \<union> set (snd c)))"

section \<open>Counting split and merge steps\<close>

text \<open>
  The step counts of the two operations: the functions below follow the recursion of
  \<^verbatim>\<open>split\<close>, of the loop of \<^verbatim>\<open>buddy_alloc\<close> and of the loop of \<^verbatim>\<open>buddy_free\<close> branch by
  branch, and return, instead of the state, the number of halving steps (one
  \<^verbatim>\<open>list_add\<close> of an upper half each) and the number of merges (one \<^verbatim>\<open>list_del\<close> of a
  buddy each). A branch that ends the call counts nothing.
\<close>

function split_steps :: "nat \<Rightarrow> nat \<Rightarrow> nat \<Rightarrow> state \<Rightarrow> nat" where
  "split_steps order targetOrder index st =
     (if order = targetOrder then 0
      else if order = 0 \<or> MAX_ORDER < order - 1 then 0
      else if order - 1 < MIN_ORDER then 0
      else
        (let cur_page = ADDR_TO_PAGE (BUDDY_ADDR (PAGE_TO_ADDR index) (order - 1)) in
         if PAGE_NUM \<le> cur_page then 0
         else Suc (split_steps (order - 1) targetOrder index (list_add cur_page (order - 1) st))))"
  by pat_completeness auto
termination
  by (relation "measure (\<lambda>(order, targetOrder, index, st). order)") auto

declare split_steps.simps [simp del]

function alloc_steps :: "nat \<Rightarrow> nat \<Rightarrow> state \<Rightarrow> nat" where
  "alloc_steps i order st =
     (if i \<le> MAX_ORDER then
        (if \<not> list_empty i st then
           (let entry = hd (free_area st i) in
            if i = order then 0
            else
              (let cur_index = page_index (g_pages st entry);
                   st1 = list_del entry i st;
                   st2 = set_block_size entry (int order) st1
               in split_steps i order cur_index st2))
         else alloc_steps (i + 1) order st)
      else 0)"
  by pat_completeness auto
termination
  by (relation "measure (\<lambda>(i, order, st). Suc MAX_ORDER - i)") auto

declare alloc_steps.simps [simp del]

definition buddy_alloc_steps :: "int \<Rightarrow> state \<Rightarrow> nat" where
  "buddy_alloc_steps sz st = (let order = order_exp sz in alloc_steps order order st)"

function free_steps :: "nat \<Rightarrow> nat \<Rightarrow> nat \<Rightarrow> state \<Rightarrow> nat" where
  "free_steps i addr free_index st =
     (if i \<le> MAX_ORDER then
        (if i < MIN_ORDER then 0
         else
           (case scan_list (g_pages st) (BUDDY_ADDR addr i) None (free_area st i) of
              None \<Rightarrow> 0
            | Some buddy_block \<Rightarrow>
                if block_address (g_pages st buddy_block) \<noteq> BUDDY_ADDR addr i then 0
                else if addr > block_address (g_pages st buddy_block) then
                  Suc (free_steps (i + 1) (block_address (g_pages st buddy_block))
                    (ADDR_TO_PAGE (block_address (g_pages st buddy_block)))
                    (list_del buddy_block i st))
                else Suc (free_steps (i + 1) addr free_index (list_del buddy_block i st))))
      else 0)"
  by pat_completeness auto
termination
  by (relation "measure (\<lambda>(i, addr, free_index, st). Suc MAX_ORDER - i)") auto

declare free_steps.simps [simp del]

definition buddy_free_steps :: "nat \<Rightarrow> state \<Rightarrow> nat" where
  "buddy_free_steps addr st =
     (let free_index = ADDR_TO_PAGE addr in
      if PAGE_NUM \<le> free_index then 0
      else
        (let free_order = block_size (g_pages st free_index) in
         if free_order < 0 then 0
         else free_steps (nat free_order) addr free_index st))"

section \<open>Basic facts\<close>

lemmas const_defs = MIN_ORDER_def MAX_ORDER_def MEMORY_AREA_def PAGE_SIZE_def PAGE_NUM_def
  PAGE_TO_ADDR_def ADDR_TO_PAGE_def BUDDY_ADDR_def

lemmas eval_defs = list_empty_def list_del_def list_add_def set_block_size_def init_page_def

lemma fold_init_pages:
  "fold (\<lambda>i pg. pg(i := f i)) [0..<n] pg = (\<lambda>p. if p < n then f p else pg p)"
  by (induction n) (auto simp: fun_eq_iff)

lemma fold_init_lists:
  "fold (\<lambda>i fa. fa(i := [])) [a..<b] fa = (\<lambda>i. if a \<le> i \<and> i < b then [] else fa i)"
  by (induction b) (auto simp: fun_eq_iff)

lemma buddy_init_eq:
  "buddy_init st =
     \<lparr>free_area = (\<lambda>i. if i = MAX_ORDER then [0]
                       else if MIN_ORDER \<le> i \<and> i < MAX_ORDER then [] else free_area st i),
      g_pages = (\<lambda>p. if p = 0
                     then \<lparr>block_size = int MAX_ORDER, page_index = 0, block_address = 0\<rparr>
                     else if p < PAGE_NUM then init_page p else g_pages st p)\<rparr>"
  by (auto simp: buddy_init_def fold_init_pages fold_init_lists Let_def eval_defs
      fun_eq_iff const_defs)

lemma order_exp_4096: "order_exp 4096 = 12"
  by (simp add: order_exp_def order_exp_loop.simps const_defs)

lemma order_exp_8192: "order_exp 8192 = 13"
  by (simp add: order_exp_def order_exp_loop.simps const_defs)

lemma order_exp_5000: "order_exp 5000 = 13"
  by (simp add: order_exp_def order_exp_loop.simps const_defs)

lemma order_exp_600000: "order_exp 600000 = 20"
  by (simp add: order_exp_def order_exp_loop.simps const_defs)


lemma order_exp_zero: "order_exp 0 = 12"
  by (simp add: order_exp_def order_exp_loop.simps const_defs)

lemma order_exp_too_big: "order_exp 1048577 = 20"
  by (simp add: order_exp_def order_exp_loop.simps const_defs)

lemmas run_defs = buddy_alloc_def buddy_free_def alloc_loop.simps split.simps free_loop.simps
  buddy_init_eq startup_def eval_defs const_defs

lemmas observe_defs = free_lists_def covered_def free_blocks_def blocks_of_order_def
  in_block_def order_field_def upt_rec

lemma MIN_le_MAX: "MIN_ORDER \<le> MAX_ORDER"
  by (simp add: MIN_ORDER_def MAX_ORDER_def)

lemma PAGE_SIZE_pos: "0 < PAGE_SIZE"
  by (simp add: PAGE_SIZE_def)

lemma MEMORY_AREA_pages: "MEMORY_AREA = PAGE_NUM * PAGE_SIZE"
  by (simp add: const_defs)

lemma ADDR_TO_PAGE_inverse: "ADDR_TO_PAGE (PAGE_TO_ADDR p) = p"
  by (simp add: ADDR_TO_PAGE_def PAGE_TO_ADDR_def PAGE_SIZE_def)

lemma order_exp_loop_range:
  "n \<le> MAX_ORDER \<Longrightarrow> n \<le> order_exp_loop sz n \<and> order_exp_loop sz n \<le> MAX_ORDER"
proof (induction sz n rule: order_exp_loop.induct)
  case (1 sz order_num)
  show ?case
  proof (cases "2 ^ order_num < sz \<and> order_num < MAX_ORDER")
    case True
    with "1.IH" have "order_num + 1 \<le> order_exp_loop sz (order_num + 1)
        \<and> order_exp_loop sz (order_num + 1) \<le> MAX_ORDER"
      by simp
    with True show ?thesis
      by (subst (1 2) order_exp_loop.simps) simp
  next
    case False
    with "1.prems" show ?thesis
      by (subst (1 2) order_exp_loop.simps) auto
  qed
qed

lemma order_exp_range: "MIN_ORDER \<le> order_exp sz \<and> order_exp sz \<le> MAX_ORDER"
  unfolding order_exp_def by (rule order_exp_loop_range) (rule MIN_le_MAX)

lemma alloc_loop_exhausted:
  "(\<forall>j. i \<le> j \<and> j \<le> MAX_ORDER \<longrightarrow> free_area st j = []) \<Longrightarrow> alloc_loop i order st = Inr (NULL, st)"
proof (induction i order st rule: alloc_loop.induct)
  case (1 i order st)
  show ?case
  proof (cases "i \<le> MAX_ORDER")
    case True
    with "1.prems" have e: "list_empty i st"
      by (simp add: list_empty_def)
    from "1.prems" have "\<forall>j. i + 1 \<le> j \<and> j \<le> MAX_ORDER \<longrightarrow> free_area st j = []"
      by simp
    with "1.IH" True e have "alloc_loop (i + 1) order st = Inr (NULL, st)"
      by blast
    with True e show ?thesis
      by (subst alloc_loop.simps) simp
  next
    case False
    then show ?thesis
      by (subst alloc_loop.simps) simp
  qed
qed

lemma alloc_loop_skip:
  "i \<le> k \<Longrightarrow> k \<le> MAX_ORDER \<Longrightarrow> (\<forall>j. i \<le> j \<and> j < k \<longrightarrow> free_area st j = [])
    \<Longrightarrow> alloc_loop i order st = alloc_loop k order st"
proof (induction "k - i" arbitrary: i)
  case 0
  then show ?case by simp
next
  case (Suc d)
  then have lt: "i < k" and e: "list_empty i st"
    by (auto simp: list_empty_def)
  from Suc have "alloc_loop (i + 1) order st = alloc_loop k order st"
    by auto
  with lt e Suc.prems show ?case
    by (subst alloc_loop.simps) simp
qed

lemma xor_exp_bound:
  fixes a :: nat
  assumes "a < 2 ^ n" and "j < n"
  shows "a XOR 2 ^ j < 2 ^ n"
proof -
  have "(2::nat) ^ j < 2 ^ n"
    using assms(2) by simp
  then have "take_bit n ((2::nat) ^ j) = 2 ^ j"
    by (rule take_bit_nat_eq_self)
  moreover have "take_bit n a = a"
    using assms(1) by (rule take_bit_nat_eq_self)
  ultimately have "take_bit n (a XOR 2 ^ j) = a XOR 2 ^ j"
    by (simp only: take_bit_xor)
  then show ?thesis
    by (simp only: take_bit_nat_eq_self_iff)
qed

lemma PAGE_TO_ADDR_bound: "p < PAGE_NUM \<Longrightarrow> PAGE_TO_ADDR p < MEMORY_AREA"
  by (simp add: PAGE_TO_ADDR_def MEMORY_AREA_pages PAGE_SIZE_pos)

lemma ADDR_TO_PAGE_bound: "a < MEMORY_AREA \<Longrightarrow> ADDR_TO_PAGE a < PAGE_NUM"
  by (simp add: ADDR_TO_PAGE_def MEMORY_AREA_pages less_mult_imp_div_less)

lemma buddy_page_bound:
  "index < PAGE_NUM \<Longrightarrow> j < MAX_ORDER \<Longrightarrow> ADDR_TO_PAGE (BUDDY_ADDR (PAGE_TO_ADDR index) j) < PAGE_NUM"
  unfolding BUDDY_ADDR_def
  by (rule ADDR_TO_PAGE_bound) (use PAGE_TO_ADDR_bound xor_exp_bound in \<open>simp add: MEMORY_AREA_def\<close>)

lemma split_result_aux:
  "MIN_ORDER \<le> t \<Longrightarrow> t + d \<le> MAX_ORDER \<Longrightarrow> index < PAGE_NUM \<Longrightarrow>
   split (t + d) t index st =
     Inr (st\<lparr>free_area := (\<lambda>j. if t \<le> j \<and> j < t + d
                                then ADDR_TO_PAGE (BUDDY_ADDR (PAGE_TO_ADDR index) j) # free_area st j
                                else free_area st j)\<rparr>)"
proof (induction d arbitrary: st)
  case 0
  have "(\<lambda>j. if t \<le> j \<and> j < t
              then ADDR_TO_PAGE (BUDDY_ADDR (PAGE_TO_ADDR index) j) # free_area st j
              else free_area st j) = free_area st"
    by auto
  then show ?case
    by (subst split.simps) simp
next
  case (Suc d)
  let ?cp = "ADDR_TO_PAGE (BUDDY_ADDR (PAGE_TO_ADDR index) (t + d))"
  let ?st1 = "list_add ?cp (t + d) st"
  have cp: "?cp < PAGE_NUM"
    using Suc.prems by (intro buddy_page_bound) auto
  have "split (t + Suc d) t index st = split (t + d) t index ?st1"
    using Suc.prems cp by (subst split.simps) (simp add: Let_def)
  also have "\<dots> = Inr (?st1\<lparr>free_area := (\<lambda>j. if t \<le> j \<and> j < t + d
                                then ADDR_TO_PAGE (BUDDY_ADDR (PAGE_TO_ADDR index) j) # free_area ?st1 j
                                else free_area ?st1 j)\<rparr>)"
    using Suc.prems by (intro Suc.IH) auto
  also have "\<dots> = Inr (st\<lparr>free_area := (\<lambda>j. if t \<le> j \<and> j < t + Suc d
                                then ADDR_TO_PAGE (BUDDY_ADDR (PAGE_TO_ADDR index) j) # free_area st j
                                else free_area st j)\<rparr>)"
  proof -
    have "(\<lambda>j. if t \<le> j \<and> j < t + d
                then ADDR_TO_PAGE (BUDDY_ADDR (PAGE_TO_ADDR index) j) # free_area ?st1 j
                else free_area ?st1 j) =
          (\<lambda>j. if t \<le> j \<and> j < t + Suc d
                then ADDR_TO_PAGE (BUDDY_ADDR (PAGE_TO_ADDR index) j) # free_area st j
                else free_area st j)"
      by (rule ext) (auto simp: list_add_def)
    then show ?thesis
      by (simp add: list_add_def)
  qed
  finally show ?case .
qed

lemma split_result:
  assumes "MIN_ORDER \<le> t" "t \<le> k" "k \<le> MAX_ORDER" "index < PAGE_NUM"
  shows "split k t index st =
     Inr (st\<lparr>free_area := (\<lambda>j. if t \<le> j \<and> j < k
                                then ADDR_TO_PAGE (BUDDY_ADDR (PAGE_TO_ADDR index) j) # free_area st j
                                else free_area st j)\<rparr>)"
  using split_result_aux [of t "k - t" index st] assms by simp

lemma free_area_list_add [simp]:
  "free_area (list_add p i st) = (free_area st)(i := p # free_area st i)"
  by (simp add: list_add_def)

lemma g_pages_list_add [simp]: "g_pages (list_add p i st) = g_pages st"
  by (simp add: list_add_def)

lemma free_area_list_del [simp]:
  "free_area (list_del p i st) = (free_area st)(i := remove1 p (free_area st i))"
  by (simp add: list_del_def)

lemma g_pages_list_del [simp]: "g_pages (list_del p i st) = g_pages st"
  by (simp add: list_del_def)

lemma free_area_set_block_size [simp]: "free_area (set_block_size p v st) = free_area st"
  by (simp add: set_block_size_def)

lemma g_pages_set_block_size [simp]:
  "g_pages (set_block_size p v st) = (g_pages st)(p := (g_pages st p)\<lparr>block_size := v\<rparr>)"
  by (simp add: set_block_size_def)

lemma remove1_hd: "xs \<noteq> [] \<Longrightarrow> remove1 (hd xs) xs = tl xs"
  by (cases xs) simp_all

lemma split_fields:
  assumes "MIN_ORDER \<le> t" "t \<le> k" "k \<le> MAX_ORDER" "index < PAGE_NUM"
  shows "\<exists>st'. split k t index st = Inr st' \<and> g_pages st' = g_pages st \<and>
     free_area st' = (\<lambda>j. if t \<le> j \<and> j < k
                          then ADDR_TO_PAGE (BUDDY_ADDR (PAGE_TO_ADDR index) j) # free_area st j
                          else free_area st j)"
  using split_result [OF assms, of st] by simp

lemma alloc_loop_exact:
  assumes "k \<le> MAX_ORDER" "free_area st k \<noteq> []"
  shows "\<exists>st'. alloc_loop k k st = Inr (Addr (block_address (g_pages st (hd (free_area st k)))), st')
     \<and> g_pages st' = g_pages st
     \<and> free_area st' = (free_area st)(k := tl (free_area st k))"
  using assms by (subst alloc_loop.simps) (simp add: list_empty_def Let_def remove1_hd)

lemma alloc_loop_larger:
  assumes "k \<le> MAX_ORDER" "MIN_ORDER \<le> t" "t < k" "free_area st k \<noteq> []"
    and "page_index (g_pages st (hd (free_area st k))) < PAGE_NUM"
  shows "\<exists>st'. alloc_loop k t st = Inr (Addr (block_address (g_pages st (hd (free_area st k)))), st')
     \<and> g_pages st' = (g_pages st)(hd (free_area st k) :=
                         (g_pages st (hd (free_area st k)))\<lparr>block_size := int t\<rparr>)
     \<and> free_area st' = (\<lambda>j. if t \<le> j \<and> j < k
          then ADDR_TO_PAGE (BUDDY_ADDR (PAGE_TO_ADDR (page_index (g_pages st (hd (free_area st k))))) j)
                 # free_area st j
          else if j = k then tl (free_area st k) else free_area st j)"
proof -
  let ?e = "hd (free_area st k)"
  let ?st2 = "set_block_size ?e (int t) (list_del ?e k st)"
  from assms obtain st' where s: "split k t (page_index (g_pages st ?e)) ?st2 = Inr st'"
    and g: "g_pages st' = g_pages ?st2"
    and f: "free_area st' = (\<lambda>j. if t \<le> j \<and> j < k
        then ADDR_TO_PAGE (BUDDY_ADDR (PAGE_TO_ADDR (page_index (g_pages st ?e))) j) # free_area ?st2 j
        else free_area ?st2 j)"
    using split_fields [of t k "page_index (g_pages st ?e)" ?st2] by auto
  have "alloc_loop k t st = Inr (Addr (block_address (g_pages st' ?e)), st')"
    using assms s by (subst alloc_loop.simps) (simp add: list_empty_def Let_def)
  moreover have "block_address (g_pages st' ?e) = block_address (g_pages st ?e)"
    using g by simp
  moreover have "g_pages st' = (g_pages st)(?e := (g_pages st ?e)\<lparr>block_size := int t\<rparr>)"
    using g by simp
  moreover have "free_area st' = (\<lambda>j. if t \<le> j \<and> j < k
          then ADDR_TO_PAGE (BUDDY_ADDR (PAGE_TO_ADDR (page_index (g_pages st ?e))) j) # free_area st j
          else if j = k then tl (free_area st k) else free_area st j)"
    unfolding f using assms(3,4) by (auto simp: fun_eq_iff remove1_hd)
  ultimately show ?thesis
    by simp
qed

lemma buddy_alloc_first_nonempty:
  assumes "order_exp sz \<le> k" "k \<le> MAX_ORDER"
    and "\<forall>i. order_exp sz \<le> i \<and> i < k \<longrightarrow> free_area st i = []"
  shows "buddy_alloc sz st = alloc_loop k (order_exp sz) st"
  unfolding buddy_alloc_def Let_def using assms by (intro alloc_loop_skip) auto

lemma xor_exp_aligned:
  fixes a :: nat
  assumes "2 ^ Suc j dvd a"
  shows "a XOR 2 ^ j = a + 2 ^ j"
proof -
  from assms obtain m where "a = 2 ^ Suc j * m" ..
  then have "a div 2 ^ j = 2 * m"
    by simp
  then have "\<not> bit a j"
    by (simp add: bit_iff_odd)
  then have "a AND 2 ^ j = 0"
    by (simp add: and_exp_eq_0_iff_not_bit)
  then show ?thesis
    by (simp add: disjunctive_add_eq_xor)
qed



section \<open>The invariant is kept\<close>

subsection \<open>Intervals\<close>

lemma overlap_refl [simp]: "overlap b b"
  by (simp add: overlap_def)

lemma overlap_sym: "overlap b c \<Longrightarrow> overlap c b"
  by (simp add: overlap_def)

lemma dvd_step:
  fixes x y d :: nat
  assumes "d dvd x" "d dvd y" "x < y"
  shows "x + d \<le> y"
proof -
  from assms obtain m n where x: "x = d * m" and y: "y = d * n"
    by (auto elim!: dvdE)
  with assms(3) have "m < n"
    by (metis mult_less_cancel1)
  then have "d * (m + 1) \<le> d * n"
    by (intro mult_le_mono2) simp
  with x y show ?thesis
    by simp
qed

lemma aligned_nested:
  assumes "2 ^ k dvd (a::nat)" "2 ^ k' dvd (a'::nat)" "k \<le> k'" "overlap (a, k) (a', k')"
  shows "a' \<le> a \<and> a + 2 ^ k \<le> a' + 2 ^ k'"
proof -
  have kk: "(2::nat) ^ k dvd 2 ^ k'"
    using assms(3) by (rule le_imp_power_dvd)
  then have d: "2 ^ k dvd a'"
    using assms(2) by (rule dvd_trans)
  from assms(4) have o: "a < a' + 2 ^ k'" "a' < a + 2 ^ k"
    by (simp_all add: overlap_def)
  have "a' \<le> a"
  proof (rule ccontr)
    assume "\<not> a' \<le> a"
    then have "a < a'" by simp
    with assms(1) d have "a + 2 ^ k \<le> a'" by (rule dvd_step)
    with o(2) show False by simp
  qed
  moreover have "2 ^ k dvd a' + 2 ^ k'"
    using d kk by (rule dvd_add)
  with assms(1) have "a + 2 ^ k \<le> a' + 2 ^ k'"
    using o(1) by (rule dvd_step)
  ultimately show ?thesis ..
qed

lemma xor_exp_unaligned:
  fixes a :: nat
  assumes "2 ^ j dvd a" "\<not> 2 ^ Suc j dvd a"
  shows "2 ^ j \<le> a \<and> a XOR 2 ^ j = a - 2 ^ j \<and> 2 ^ Suc j dvd a - 2 ^ j"
proof -
  from assms(1) obtain m where a: "a = 2 ^ j * m" ..
  with assms(2) have "odd m"
    by auto
  then obtain n where m: "m = 2 * n + 1"
    by (auto elim: oddE)
  have le: "2 ^ j \<le> a"
    using a m by simp
  have b: "a - 2 ^ j = 2 ^ Suc j * n"
    using a m by (simp add: algebra_simps)
  then have dv: "2 ^ Suc j dvd a - 2 ^ j"
    by simp
  then have "(a - 2 ^ j) XOR 2 ^ j = (a - 2 ^ j) + 2 ^ j"
    by (rule xor_exp_aligned)
  also have "\<dots> = a"
    using le by simp
  finally have "((a - 2 ^ j) XOR 2 ^ j) XOR 2 ^ j = a XOR 2 ^ j"
    by simp
  then have "a XOR 2 ^ j = a - 2 ^ j"
    by (simp add: xor.assoc)
  with le dv show ?thesis
    by simp
qed

lemma xor_exp_above:
  fixes a :: nat
  assumes "a < 2 ^ n"
  shows "a XOR 2 ^ n = a + 2 ^ n"
proof -
  from assms have "\<not> bit a n"
    by (simp add: bit_iff_odd)
  then have "a AND 2 ^ n = 0"
    by (simp add: and_exp_eq_0_iff_not_bit)
  then show ?thesis
    by (simp add: disjunctive_add_eq_xor)
qed

subsection \<open>Pages and addresses\<close>

lemma valid_order_MIN: "valid_order i \<Longrightarrow> MIN_ORDER \<le> i"
  by (simp add: valid_order_def)

lemma PAGE_TO_ADDR_inj [simp]: "PAGE_TO_ADDR p = PAGE_TO_ADDR q \<longleftrightarrow> p = q"
  by (simp add: PAGE_TO_ADDR_def PAGE_SIZE_def)

lemma aligned_page:
  assumes "MIN_ORDER \<le> i" "2 ^ i dvd a"
  shows "PAGE_TO_ADDR (ADDR_TO_PAGE a) = a"
proof -
  have "(2::nat) ^ MIN_ORDER dvd 2 ^ i"
    using assms(1) by (rule le_imp_power_dvd)
  then have "PAGE_SIZE dvd a"
    unfolding PAGE_SIZE_def using assms(2) by (rule dvd_trans)
  then show ?thesis
    by (simp add: PAGE_TO_ADDR_def ADDR_TO_PAGE_def)
qed

lemma PAGE_TO_ADDR_less: "PAGE_TO_ADDR p < MEMORY_AREA \<longleftrightarrow> p < PAGE_NUM"
  by (simp add: PAGE_TO_ADDR_def MEMORY_AREA_pages PAGE_SIZE_pos)

subsection \<open>The set of free blocks under the list operations\<close>

lemma free_set_list_add:
  "valid_order i \<Longrightarrow> free_set (list_add p i st) = insert (PAGE_TO_ADDR p, i) (free_set st)"
  by (auto simp: free_set_def)

lemma free_set_list_del:
  "distinct (free_area st i) \<Longrightarrow> free_set (list_del p i st) = free_set st - {(PAGE_TO_ADDR p, i)}"
  by (auto simp: free_set_def)

lemma free_set_set_block_size [simp]: "free_set (set_block_size p v st) = free_set st"
  by (simp add: free_set_def)

lemma free_setI: "valid_order i \<Longrightarrow> p \<in> set (free_area st i) \<Longrightarrow> (PAGE_TO_ADDR p, i) \<in> free_set st"
  by (auto simp: free_set_def)

lemma free_setD:
  "(a, i) \<in> free_set st \<Longrightarrow> valid_order i \<and> (\<exists>p\<in>set (free_area st i). a = PAGE_TO_ADDR p)"
  by (auto simp: free_set_def)

lemma pages_ok_list_add [simp]: "pages_ok (list_add p i st) = pages_ok st"
  by (simp add: pages_ok_def)

lemma pages_ok_list_del [simp]: "pages_ok (list_del p i st) = pages_ok st"
  by (simp add: pages_ok_def)

lemma pages_ok_set_block_size [simp]: "pages_ok (set_block_size p v st) = pages_ok st"
  by (auto simp: pages_ok_def)

lemma sizes_ok_list_add [simp]: "sizes_ok (list_add p i st) = sizes_ok st"
  by (simp add: sizes_ok_def)

lemma sizes_ok_list_del [simp]: "sizes_ok (list_del p i st) = sizes_ok st"
  by (simp add: sizes_ok_def)

lemma order_le_list_add [simp]: "order_le (list_add p i st) b = order_le st b"
  by (simp add: order_le_def)

lemma order_le_list_del [simp]: "order_le (list_del p i st) b = order_le st b"
  by (simp add: order_le_def)

lemma lists_distinct_list_del: "lists_distinct st \<Longrightarrow> lists_distinct (list_del p i st)"
  by (simp add: lists_distinct_def)

lemma lists_distinct_list_add:
  "lists_distinct st \<Longrightarrow> p \<notin> set (free_area st i) \<Longrightarrow> lists_distinct (list_add p i st)"
  by (simp add: lists_distinct_def)

lemma lists_distinct_set_block_size [simp]: "lists_distinct (set_block_size p v st) = lists_distinct st"
  by (simp add: lists_distinct_def)

lemma order_le_set_block_size:
  "order_le (set_block_size p v st) b =
     (if ADDR_TO_PAGE (fst b) = p then v \<le> int (snd b) else order_le st b)"
  by (simp add: order_le_def)

subsection \<open>Elementary steps that keep the invariant\<close>

lemma pairwise_apartD:
  "pairwise_apart U \<Longrightarrow> b \<in> U \<Longrightarrow> c \<in> U \<Longrightarrow> overlap b c \<Longrightarrow> b = c"
  unfolding pairwise_apart_def by blast

lemma inv_cong:
  assumes "allocator_inv (st, L)" "set L' = set L" "distinct L'"
  shows "allocator_inv (st, L')"
  using assms by (simp add: allocator_inv_def)

lemma inv_take:
  assumes "allocator_inv (st, L)" "valid_order i" "p \<in> set (free_area st i)"
  shows "allocator_inv (list_del p i st, (PAGE_TO_ADDR p, i) # L)"
proof -
  let ?b = "(PAGE_TO_ADDR p, i)"
  from assms(1,2) have "distinct (free_area st i)"
    by (simp add: allocator_inv_def lists_distinct_def)
  then have F: "free_set (list_del p i st) = free_set st - {?b}"
    by (rule free_set_list_del)
  have bF: "?b \<in> free_set st"
    using assms(2,3) by (rule free_setI)
  with assms(1) have bL: "?b \<notin> set L"
    by (auto simp: allocator_inv_def)
  from bF have U: "(free_set st - {?b}) \<union> set (?b # L) = free_set st \<union> set L"
    by auto
  from assms(1) bL show ?thesis
    unfolding allocator_inv_def fst_conv snd_conv F U
    by (auto simp: lists_distinct_list_del)
qed

lemma inv_give:
  assumes "allocator_inv (st, (PAGE_TO_ADDR p, i) # L)"
  shows "allocator_inv (list_add p i st, L)"
proof -
  let ?b = "(PAGE_TO_ADDR p, i)"
  from assms have v: "valid_order i"
    by (simp add: allocator_inv_def aligned_block_def)
  then have F: "free_set (list_add p i st) = insert ?b (free_set st)"
    by (rule free_set_list_add)
  have "p \<notin> set (free_area st i)"
  proof
    assume "p \<in> set (free_area st i)"
    with v have "?b \<in> free_set st" by (rule free_setI)
    with assms show False by (auto simp: allocator_inv_def)
  qed
  with assms have d: "lists_distinct (list_add p i st)"
    by (intro lists_distinct_list_add) (simp add: allocator_inv_def)
  have U: "insert ?b (free_set st) \<union> set L = free_set st \<union> set (?b # L)"
    by auto
  from assms d show ?thesis
    unfolding allocator_inv_def fst_conv snd_conv F U
    by auto
qed

lemma inv_regroup:
  assumes inv: "allocator_inv (st, X @ L)"
    and G: "distinct G" "pairwise_apart (set G)"
    and ok: "\<forall>g\<in>set G. aligned_block g \<and> order_le st g"
    and cover: "\<forall>g\<in>set G. \<forall>x. overlap g x \<longrightarrow> (\<exists>h\<in>set X. overlap h x)"
  shows "allocator_inv (st, G @ L)"
proof -
  let ?F = "free_set st"
  from inv have dXL: "distinct (X @ L)" and FX: "?F \<inter> set (X @ L) = {}"
    and apart: "pairwise_apart (?F \<union> set (X @ L))"
    by (simp_all add: allocator_inv_def)
  have other: "\<not> overlap h x" if "h \<in> set X" "x \<in> ?F \<union> set L" for h x
  proof -
    from that dXL FX have "h \<noteq> x" by auto
    with apart that show ?thesis by (auto simp: pairwise_apart_def)
  qed
  have fresh: "\<not> overlap g x" if "g \<in> set G" "x \<in> ?F \<union> set L" for g x
    using cover that other by blast
  then have notin: "g \<notin> ?F \<union> set L" if "g \<in> set G" for g
    using that overlap_refl by blast
  have "distinct (G @ L)"
    using G(1) dXL notin by auto
  moreover have "?F \<inter> set (G @ L) = {}"
    using FX notin by auto
  moreover have "\<forall>b \<in> ?F \<union> set (G @ L). aligned_block b \<and> order_le st b"
    using inv ok by (auto simp: allocator_inv_def)
  moreover have "pairwise_apart (?F \<union> set (G @ L))"
    unfolding pairwise_apart_def
  proof (intro ballI impI)
    fix b c
    assume b: "b \<in> ?F \<union> set (G @ L)" and c: "c \<in> ?F \<union> set (G @ L)" and ne: "b \<noteq> c"
    show "\<not> overlap b c"
    proof (cases "b \<in> set G")
      case True
      show ?thesis
      proof (cases "c \<in> set G")
        case True
        with \<open>b \<in> set G\<close> ne G(2) show ?thesis by (auto simp: pairwise_apart_def)
      next
        case False
        with c have "c \<in> ?F \<union> set L" by auto
        with True show ?thesis by (rule fresh)
      qed
    next
      case False
      with b have b': "b \<in> ?F \<union> set L" by auto
      show ?thesis
      proof (cases "c \<in> set G")
        case True
        then have "\<not> overlap c b" using b' by (rule fresh)
        then show ?thesis using overlap_sym by blast
      next
        case False
        with c have "c \<in> ?F \<union> set L" by auto
        with b' ne apart show ?thesis by (auto simp: pairwise_apart_def)
      qed
    qed
  qed
  ultimately show ?thesis
    using inv by (simp add: allocator_inv_def)
qed

lemma inv_mark:
  assumes "allocator_inv (st, L)"
  shows "allocator_inv (set_block_size p (- 1) st, L)"
proof -
  have "sizes_ok (set_block_size p (- 1) st)"
    using assms by (auto simp: allocator_inv_def sizes_ok_def)
  moreover have "order_le (set_block_size p (- 1) st) b" if "order_le st b" for b
    using that by (simp add: order_le_set_block_size)
  ultimately show ?thesis
    using assms by (simp add: allocator_inv_def)
qed

lemma same_start_overlap: "overlap (a, i) (a, j)"
  by (simp add: overlap_def)

lemma inv_set_order:
  assumes inv: "allocator_inv (st, (PAGE_TO_ADDR e, k) # L)" and t: "MIN_ORDER \<le> t" "t < k"
  shows "allocator_inv (set_block_size e (int t) st, (PAGE_TO_ADDR e, k) # L)"
proof -
  let ?h = "(PAGE_TO_ADDR e, k)"
  let ?U = "free_set st \<union> set (?h # L)"
  from inv have h: "aligned_block ?h"
    by (simp add: allocator_inv_def)
  then have e: "e < PAGE_NUM" and k: "k \<le> MAX_ORDER" and dv: "2 ^ k dvd PAGE_TO_ADDR e"
    by (simp_all add: aligned_block_def PAGE_TO_ADDR_less valid_order_def)
  have "(2::nat) ^ Suc t dvd 2 ^ k"
    using t(2) by (intro le_imp_power_dvd) simp
  then have "2 ^ Suc t dvd PAGE_TO_ADDR e"
    using dv by (rule dvd_trans)
  with inv t k have s: "sizes_ok (set_block_size e (int t) st)"
    by (auto simp: allocator_inv_def sizes_ok_def)
  have o: "order_le (set_block_size e (int t) st) b" if b: "b \<in> ?U" for b
  proof (cases "ADDR_TO_PAGE (fst b) = e")
    case True
    from inv b have "aligned_block b"
      by (auto simp: allocator_inv_def)
    then have "PAGE_TO_ADDR (ADDR_TO_PAGE (fst b)) = fst b"
      by (intro aligned_page [of "snd b"]) (simp_all add: aligned_block_def valid_order_def)
    with True have "fst b = PAGE_TO_ADDR e"
      by simp
    then have "overlap ?h b"
      using same_start_overlap [of "PAGE_TO_ADDR e" k "snd b"] by (cases b) simp
    moreover from inv have "pairwise_apart ?U"
      by (simp add: allocator_inv_def)
    moreover have "?h \<in> ?U"
      by simp
    ultimately have "?h = b"
      using b by (intro pairwise_apartD [of ?U ?h b])
    then have "b = ?h" ..
    with t(2) show ?thesis
      by (simp add: order_le_set_block_size ADDR_TO_PAGE_inverse)
  next
    case False
    with inv b show ?thesis
      by (auto simp: order_le_set_block_size allocator_inv_def)
  qed
  from inv s o show ?thesis
    unfolding allocator_inv_def fst_conv snd_conv
    by simp
qed

lemma block_end:
  assumes "aligned_block (a, k)"
  shows "a + 2 ^ k \<le> MEMORY_AREA"
proof -
  from assms have "k \<le> MAX_ORDER" "2 ^ k dvd a" "a < 2 ^ MAX_ORDER"
    by (simp_all add: aligned_block_def valid_order_def MEMORY_AREA_def)
  moreover from this(1) have "(2::nat) ^ k dvd 2 ^ MAX_ORDER"
    by (rule le_imp_power_dvd)
  ultimately show ?thesis
    unfolding MEMORY_AREA_def by (intro dvd_step)
qed

lemma upper_half_order:
  assumes s: "sizes_ok st" and dv: "2 ^ Suc j dvd a" and j: "MIN_ORDER \<le> j"
    and lt: "a + 2 ^ j < MEMORY_AREA"
  shows "order_le st (a + 2 ^ j, j)"
proof -
  let ?q = "ADDR_TO_PAGE (a + 2 ^ j)"
  let ?bs = "block_size (g_pages st ?q)"
  have "2 ^ j dvd a"
    using dv by (rule dvd_trans [rotated]) simp
  then have "2 ^ j dvd a + 2 ^ j"
    by simp
  with j have pq: "PAGE_TO_ADDR ?q = a + 2 ^ j"
    by (rule aligned_page)
  from lt have "?q < PAGE_NUM"
    by (rule ADDR_TO_PAGE_bound)
  with s have "?bs = - 1 \<or> (0 \<le> ?bs \<and> 2 ^ Suc (nat ?bs) dvd PAGE_TO_ADDR ?q)"
    by (auto simp: sizes_ok_def)
  then have c: "?bs = - 1 \<or> (0 \<le> ?bs \<and> 2 ^ Suc (nat ?bs) dvd a + 2 ^ j)"
    unfolding pq .
  have "?bs \<le> int j"
  proof (rule ccontr)
    assume "\<not> ?bs \<le> int j"
    then have n: "j \<le> nat ?bs" "0 \<le> ?bs"
      by simp_all
    with c have "2 ^ Suc (nat ?bs) dvd a + 2 ^ j"
      by auto
    moreover have "(2::nat) ^ Suc j dvd 2 ^ Suc (nat ?bs)"
      using n(1) by (intro le_imp_power_dvd) simp
    ultimately have "2 ^ Suc j dvd a + 2 ^ j"
      by (rule dvd_trans [rotated])
    with dv have "(2::nat) ^ Suc j dvd 2 ^ j"
      by (simp add: dvd_add_right_iff)
    then have "(2::nat) ^ Suc j \<le> 2 ^ j"
      by (rule dvd_imp_le) simp
    then show False
      by simp
  qed
  then show ?thesis
    by (simp add: order_le_def)
qed

lemma inv_shrink:
  assumes inv: "allocator_inv (st, (a, k) # L)" and j: "valid_order j" "j \<le> k"
    and bs: "block_size (g_pages st (ADDR_TO_PAGE a)) \<le> int j"
  shows "allocator_inv (st, (a, j) # L)"
proof -
  from inv have h: "aligned_block (a, k)"
    by (simp add: allocator_inv_def)
  have "(2::nat) ^ j dvd 2 ^ k"
    using j(2) by (rule le_imp_power_dvd)
  with h have "2 ^ j dvd a"
    unfolding aligned_block_def by (auto elim: dvd_trans)
  with h j(1) have a: "aligned_block (a, j)"
    by (simp add: aligned_block_def)
  have le: "(2::nat) ^ j \<le> 2 ^ k"
    using j(2) by simp
  have c: "overlap (a, k) x" if "overlap (a, j) x" for x
    using that le unfolding overlap_def fst_conv snd_conv by linarith
  have i0: "allocator_inv (st, [(a, k)] @ L)"
    using inv by simp
  have g1: "distinct [(a, j)]" and g2: "pairwise_apart (set [(a, j)])"
    by (simp_all add: pairwise_apart_def)
  have g3: "\<forall>g\<in>set [(a, j)]. aligned_block g \<and> order_le st g"
    using a bs by (simp add: order_le_def)
  have g4: "\<forall>g\<in>set [(a, j)]. \<forall>x. overlap g x \<longrightarrow> (\<exists>h\<in>set [(a, k)]. overlap h x)"
    using c by simp
  have "allocator_inv (st, [(a, j)] @ L)"
    using i0 g1 g2 g3 g4 by (rule inv_regroup)
  then show ?thesis
    by simp
qed

lemma inv_halve:
  assumes inv: "allocator_inv (st, (a, Suc j) # L)" and j: "valid_order j"
    and bs: "block_size (g_pages st (ADDR_TO_PAGE a)) \<le> int j"
  shows "allocator_inv (st, (a + 2 ^ j, j) # (a, j) # L)"
proof -
  from inv have h: "aligned_block (a, Suc j)" and s: "sizes_ok st"
    by (simp_all add: allocator_inv_def)
  then have dv: "2 ^ Suc j dvd a"
    by (simp add: aligned_block_def)
  then have dj: "2 ^ j dvd a"
    by (rule dvd_trans [rotated]) simp
  from h have "a + 2 ^ Suc j \<le> MEMORY_AREA"
    by (rule block_end)
  moreover have "(0::nat) < 2 ^ j"
    by simp
  ultimately have lt: "a + 2 ^ j < MEMORY_AREA"
    unfolding power_Suc by linarith
  with dj j have lo: "aligned_block (a, j)" and hi: "aligned_block (a + 2 ^ j, j)"
    by (simp_all add: aligned_block_def)
  have ohi: "order_le st (a + 2 ^ j, j)"
    using s dv _ lt by (rule upper_half_order) (use j in \<open>simp add: valid_order_def\<close>)
  have p: "(0::nat) < 2 ^ j"
    by simp
  have c: "overlap (a, Suc j) x" if "overlap (a, j) x \<or> overlap (a + 2 ^ j, j) x" for x
    using that p unfolding overlap_def fst_conv snd_conv power_Suc by linarith
  have n: "\<not> overlap (a + 2 ^ j, j) (a, j)" "\<not> overlap (a, j) (a + 2 ^ j, j)"
    unfolding overlap_def fst_conv snd_conv by linarith+
  have ne: "(a + 2 ^ j, j) \<noteq> (a, j)"
    by simp
  have i0: "allocator_inv (st, [(a, Suc j)] @ L)"
    using inv by simp
  have g1: "distinct [(a + 2 ^ j, j), (a, j)]"
    by simp
  have g2: "pairwise_apart (set [(a + 2 ^ j, j), (a, j)])"
    using n unfolding pairwise_apart_def by (simp del: add_diff_cancel_left')
  have g3: "\<forall>g\<in>set [(a + 2 ^ j, j), (a, j)]. aligned_block g \<and> order_le st g"
    using lo hi ohi bs by (simp add: order_le_def)
  have g4: "\<forall>g\<in>set [(a + 2 ^ j, j), (a, j)]. \<forall>x. overlap g x
      \<longrightarrow> (\<exists>h\<in>set [(a, Suc j)]. overlap h x)"
    using c by simp
  have "allocator_inv (st, [(a + 2 ^ j, j), (a, j)] @ L)"
    using i0 g1 g2 g3 g4 by (rule inv_regroup)
  then show ?thesis
    by simp
qed

lemma inv_merge:
  assumes inv: "allocator_inv (st, X @ L)" and X: "set X = {(a, i), (a + 2 ^ i, i)}"
    and dv: "2 ^ Suc i dvd a" and i: "i < MAX_ORDER"
  shows "allocator_inv (st, (a, Suc i) # L)"
proof -
  from inv X have lo: "aligned_block (a, i)" "order_le st (a, i)"
    by (simp_all add: allocator_inv_def)
  with dv i have al: "aligned_block (a, Suc i)"
    by (simp add: aligned_block_def valid_order_def)
  from lo(2) have ol: "order_le st (a, Suc i)"
    by (simp add: order_le_def)
  have c: "\<exists>h\<in>set X. overlap h x" if "overlap (a, Suc i) x" for x
  proof (cases "fst x < a + 2 ^ i")
    case True
    with that have "overlap (a, i) x"
      by (simp add: overlap_def)
    with X show ?thesis by auto
  next
    case False
    moreover have "(0::nat) < 2 ^ snd x"
      by simp
    ultimately have "overlap (a + 2 ^ i, i) x"
      using that unfolding overlap_def fst_conv snd_conv power_Suc by linarith
    with X show ?thesis by auto
  qed
  have g1: "distinct [(a, Suc i)]" and g2: "pairwise_apart (set [(a, Suc i)])"
    by (simp_all add: pairwise_apart_def)
  have g3: "\<forall>g\<in>set [(a, Suc i)]. aligned_block g \<and> order_le st g"
    using al ol by simp
  have g4: "\<forall>g\<in>set [(a, Suc i)]. \<forall>x. overlap g x \<longrightarrow> (\<exists>h\<in>set X. overlap h x)"
    using c by simp
  have "allocator_inv (st, [(a, Suc i)] @ L)"
    using inv g1 g2 g3 g4 by (rule inv_regroup)
  then show ?thesis
    by simp
qed

lemma inv_head:
  assumes "allocator_inv (st, (a, k) # L)"
  shows "aligned_block (a, k)" "pages_ok st" "sizes_ok st"
  using assms by (simp_all add: allocator_inv_def)

lemma aligned_page_index:
  assumes "aligned_block (PAGE_TO_ADDR e, k)"
  shows "e < PAGE_NUM"
  using assms by (simp add: aligned_block_def PAGE_TO_ADDR_less)

lemma init_inv: "allocator_inv (buddy_init st0, [])"
proof -
  have l: "free_area (buddy_init st0) i = (if i = MAX_ORDER then [0] else [])" if "valid_order i" for i
    using that by (simp add: buddy_init_eq valid_order_def)
  have f: "free_set (buddy_init st0) = {(0, MAX_ORDER)}"
  proof (intro set_eqI iffI)
    fix x
    assume "x \<in> free_set (buddy_init st0)"
    then obtain p i where x: "x = (PAGE_TO_ADDR p, i)" and v: "valid_order i"
      and p: "p \<in> set (free_area (buddy_init st0) i)"
      by (auto simp: free_set_def)
    from p l [OF v] have "i = MAX_ORDER \<and> p = 0"
      by (auto split: if_splits)
    with x show "x \<in> {(0, MAX_ORDER)}"
      by (simp add: PAGE_TO_ADDR_def)
  next
    fix x :: "nat \<times> nat"
    assume "x \<in> {(0, MAX_ORDER)}"
    then have x: "x = (PAGE_TO_ADDR 0, MAX_ORDER)"
      by (simp add: PAGE_TO_ADDR_def)
    have v: "valid_order MAX_ORDER"
      by (simp add: valid_order_def MIN_le_MAX)
    from l [OF v] have "0 \<in> set (free_area (buddy_init st0) MAX_ORDER)"
      by simp
    with v show "x \<in> free_set (buddy_init st0)"
      unfolding x by (rule free_setI)
  qed
  have "pages_ok (buddy_init st0)"
    by (simp add: pages_ok_def buddy_init_eq init_page_def PAGE_TO_ADDR_def)
  moreover have "sizes_ok (buddy_init st0)"
    by (simp add: sizes_ok_def buddy_init_eq init_page_def PAGE_TO_ADDR_def MIN_le_MAX)
  moreover have "lists_distinct (buddy_init st0)"
    by (simp add: lists_distinct_def buddy_init_eq valid_order_def)
  moreover have "aligned_block (0, MAX_ORDER)"
    by (simp add: aligned_block_def valid_order_def MIN_le_MAX MEMORY_AREA_def)
  moreover have "order_le (buddy_init st0) (0, MAX_ORDER)"
    by (simp add: order_le_def buddy_init_eq ADDR_TO_PAGE_def)
  ultimately show ?thesis
    by (simp add: allocator_inv_def f pairwise_apart_def)
qed

lemma split_inv:
  assumes "allocator_inv (st, (PAGE_TO_ADDR e, t + d) # L)" and "MIN_ORDER \<le> t"
    and "block_size (g_pages st e) \<le> int t"
  shows "\<exists>st'. split (t + d) t e st = Inr st' \<and> allocator_inv (st', (PAGE_TO_ADDR e, t) # L)"
  using assms
proof (induction d arbitrary: st)
  case 0
  then show ?case
    by (subst split.simps) simp
next
  case (Suc d)
  let ?a = "PAGE_TO_ADDR e"
  let ?j = "t + d"
  let ?cp = "ADDR_TO_PAGE (BUDDY_ADDR ?a ?j)"
  let ?st1 = "list_add ?cp ?j st"
  from Suc.prems(1) have h: "aligned_block (?a, Suc ?j)"
    by (simp add: allocator_inv_def)
  then have e: "e < PAGE_NUM" and k: "Suc ?j \<le> MAX_ORDER" and dv: "2 ^ Suc ?j dvd ?a"
    by (simp_all add: aligned_block_def PAGE_TO_ADDR_less valid_order_def)
  from k Suc.prems(2) have vj: "valid_order ?j"
    by (simp add: valid_order_def)
  have b: "BUDDY_ADDR ?a ?j = ?a + 2 ^ ?j"
    unfolding BUDDY_ADDR_def using dv by (rule xor_exp_aligned)
  have cp: "?cp < PAGE_NUM"
    using e k by (intro buddy_page_bound) simp_all
  have "2 ^ ?j dvd ?a"
    using dv by (rule dvd_trans [rotated]) simp
  then have "2 ^ ?j dvd ?a + 2 ^ ?j"
    by simp
  then have pcp: "PAGE_TO_ADDR ?cp = ?a + 2 ^ ?j"
    unfolding b using vj by (intro aligned_page [of ?j]) (simp add: valid_order_def)
  have s: "split (t + Suc d) t e st = split ?j t e ?st1"
    using Suc.prems(2) k cp by (subst split.simps) (simp add: Let_def)
  have "allocator_inv (st, (?a + 2 ^ ?j, ?j) # (?a, ?j) # L)"
    using Suc.prems(1,3) vj by (intro inv_halve) (simp_all add: ADDR_TO_PAGE_inverse)
  then have "allocator_inv (st, (PAGE_TO_ADDR ?cp, ?j) # (?a, ?j) # L)"
    unfolding pcp .
  then have "allocator_inv (?st1, (?a, ?j) # L)"
    by (rule inv_give)
  moreover have "block_size (g_pages ?st1 e) \<le> int t"
    using Suc.prems(3) by simp
  ultimately have "\<exists>st'. split ?j t e ?st1 = Inr st' \<and> allocator_inv (st', (?a, t) # L)"
    using Suc.prems(2) by (intro Suc.IH)
  then show ?case
    unfolding s .
qed

lemma first_nonempty:
  assumes "\<not> (\<forall>j. t \<le> j \<and> j \<le> MAX_ORDER \<longrightarrow> free_area st j = [])"
  shows "\<exists>k. t \<le> k \<and> k \<le> MAX_ORDER \<and> free_area st k \<noteq> [] \<and>
    (\<forall>i. t \<le> i \<and> i < k \<longrightarrow> free_area st i = [])"
proof -
  define P where "P j \<longleftrightarrow> t \<le> j \<and> free_area st j \<noteq> []" for j
  from assms obtain j where j: "P j" "j \<le> MAX_ORDER"
    unfolding P_def by blast
  define k where "k = (LEAST j. P j)"
  have Pk: "P k"
    unfolding k_def using j(1) by (rule LeastI)
  have kj: "k \<le> j"
    unfolding k_def using j(1) by (rule Least_le)
  have least: "\<not> P i" if "i < k" for i
    using that unfolding k_def by (rule not_less_Least)
  show ?thesis
  proof (intro exI conjI allI impI)
    show "t \<le> k"
      using Pk by (simp add: P_def)
    show "k \<le> MAX_ORDER"
      using kj j(2) by simp
    show "free_area st k \<noteq> []"
      using Pk by (simp add: P_def)
    fix i
    assume "t \<le> i \<and> i < k"
    with least [of i] show "free_area st i = []"
      by (simp add: P_def)
  qed
qed

lemma alloc_loop_found:
  assumes inv: "allocator_inv (st, L)" and k: "t \<le> k" "k \<le> MAX_ORDER" "free_area st k \<noteq> []"
    and t: "MIN_ORDER \<le> t"
  shows "\<exists>a st'. alloc_loop k t st = Inr (Addr a, st') \<and> allocator_inv (st', (a, t) # L)"
proof -
  let ?e = "hd (free_area st k)"
  let ?a = "PAGE_TO_ADDR ?e"
  let ?st1 = "list_del ?e k st"
  from k t have vk: "valid_order k"
    by (simp add: valid_order_def)
  from k(3) have "?e \<in> set (free_area st k)"
    by simp
  with inv vk have i1: "allocator_inv (?st1, (?a, k) # L)"
    by (rule inv_take)
  then have e: "?e < PAGE_NUM"
    by (intro aligned_page_index [of ?e k]) (simp add: allocator_inv_def)
  with inv have rec: "page_index (g_pages st ?e) = ?e" "block_address (g_pages st ?e) = ?a"
    by (simp_all add: allocator_inv_def pages_ok_def)
  show ?thesis
  proof (cases "k = t")
    case True
    have "alloc_loop k k st = Inr (Addr ?a, ?st1)"
      using k by (subst alloc_loop.simps) (simp add: list_empty_def Let_def rec)
    with True i1 show ?thesis
      by auto
  next
    case False
    let ?st2 = "set_block_size ?e (int t) ?st1"
    from False k(1) have lt: "t < k"
      by simp
    with i1 t have "allocator_inv (?st2, (?a, k) # L)"
      by (intro inv_set_order)
    then have "allocator_inv (?st2, (?a, t + (k - t)) # L)"
      using lt by simp
    moreover have "block_size (g_pages ?st2 ?e) \<le> int t"
      by simp
    ultimately have "\<exists>st'. split (t + (k - t)) t ?e ?st2 = Inr st' \<and> allocator_inv (st', (?a, t) # L)"
      using t by (intro split_inv)
    then obtain st' where s: "split k t ?e ?st2 = Inr st'" and i3: "allocator_inv (st', (?a, t) # L)"
      using lt by auto
    from i3 e have "block_address (g_pages st' ?e) = ?a"
      by (simp add: allocator_inv_def pages_ok_def)
    then have "alloc_loop k t st = Inr (Addr ?a, st')"
      using k False s by (subst alloc_loop.simps) (simp add: list_empty_def Let_def rec)
    with i3 show ?thesis
      by auto
  qed
qed

lemma buddy_alloc_inv:
  assumes "allocator_inv (st, L)"
  shows "buddy_alloc sz st = Inr (NULL, st) \<or>
    (\<exists>a st'. buddy_alloc sz st = Inr (Addr a, st') \<and> allocator_inv (st', (a, order_exp sz) # L))"
proof (cases "\<forall>j. order_exp sz \<le> j \<and> j \<le> MAX_ORDER \<longrightarrow> free_area st j = []")
  case True
  then have "buddy_alloc sz st = Inr (NULL, st)"
    unfolding buddy_alloc_def Let_def by (rule alloc_loop_exhausted)
  then show ?thesis ..
next
  case False
  then obtain k where k: "order_exp sz \<le> k" "k \<le> MAX_ORDER" "free_area st k \<noteq> []"
    "\<forall>i. order_exp sz \<le> i \<and> i < k \<longrightarrow> free_area st i = []"
    using first_nonempty [of "order_exp sz" st] by blast
  then have "buddy_alloc sz st = alloc_loop k (order_exp sz) st"
    by (intro buddy_alloc_first_nonempty)
  moreover have "\<exists>a st'. alloc_loop k (order_exp sz) st = Inr (Addr a, st')
      \<and> allocator_inv (st', (a, order_exp sz) # L)"
    using assms k(1,2,3) order_exp_range [of sz] by (intro alloc_loop_found) simp_all
  ultimately show ?thesis
    by simp
qed

lemma scan_list_no_match:
  assumes "\<forall>x\<in>set xs. block_address (pg x) \<noteq> t"
  shows "scan_list pg t acc xs = (if xs = [] then acc else Some (last xs))"
  using assms by (induction xs arbitrary: acc) auto

lemma scan_list_match:
  assumes "x \<in> set xs" "block_address (pg x) = t"
  shows "\<exists>bb\<in>set xs. block_address (pg bb) = t \<and> scan_list pg t acc xs = Some bb"
  using assms by (induction xs arbitrary: acc) auto

lemma free_loop_no_match:
  assumes "MIN_ORDER \<le> i" "i \<le> MAX_ORDER"
    and "\<forall>x\<in>set (free_area st i). block_address (g_pages st x) \<noteq> BUDDY_ADDR addr i"
  shows "free_loop i addr fi st = Inr (list_add fi i (set_block_size fi (- 1) st))"
proof (cases "free_area st i = []")
  case True
  with assms(1,2) show ?thesis
    by (subst free_loop.simps) simp
next
  case False
  then have "last (free_area st i) \<in> set (free_area st i)"
    by simp
  with assms(3) have "block_address (g_pages st (last (free_area st i))) \<noteq> BUDDY_ADDR addr i"
    by blast
  with assms False show ?thesis
    by (subst free_loop.simps) (simp add: scan_list_no_match)
qed

lemma free_loop_match:
  assumes "MIN_ORDER \<le> i" "i \<le> MAX_ORDER"
    and "x \<in> set (free_area st i)" "block_address (g_pages st x) = BUDDY_ADDR addr i"
  shows "\<exists>bb\<in>set (free_area st i). block_address (g_pages st bb) = BUDDY_ADDR addr i \<and>
    free_loop i addr fi st =
      (if addr > BUDDY_ADDR addr i
       then free_loop (i + 1) (BUDDY_ADDR addr i) (ADDR_TO_PAGE (BUDDY_ADDR addr i)) (list_del bb i st)
       else free_loop (i + 1) addr fi (list_del bb i st))"
proof -
  from assms(3,4) obtain bb where bb: "bb \<in> set (free_area st i)"
    "block_address (g_pages st bb) = BUDDY_ADDR addr i"
    "scan_list (g_pages st) (BUDDY_ADDR addr i) None (free_area st i) = Some bb"
    using scan_list_match [of x "free_area st i" "g_pages st" "BUDDY_ADDR addr i" None] by blast
  have "free_loop i addr fi st =
      (if addr > BUDDY_ADDR addr i
       then free_loop (i + 1) (BUDDY_ADDR addr i) (ADDR_TO_PAGE (BUDDY_ADDR addr i)) (list_del bb i st)
       else free_loop (i + 1) addr fi (list_del bb i st))"
    using assms(1,2) bb(2,3) by (subst free_loop.simps) simp
  with bb(1,2) show ?thesis
    by blast
qed

lemma free_loop_inv:
  assumes "allocator_inv (st, (addr, i) # L)"
  shows "\<exists>st'. free_loop i addr (ADDR_TO_PAGE addr) st = Inr st' \<and> allocator_inv (st', L)"
  using assms
proof (induction "MAX_ORDER - i" arbitrary: i addr st rule: less_induct)
  case less
  note inv = less.prems
  let ?B = "BUDDY_ADDR addr i"
  let ?fi = "ADDR_TO_PAGE addr"
  from inv have h: "aligned_block (addr, i)" and pg: "pages_ok st"
    by (simp_all add: allocator_inv_def)
  then have vi: "valid_order i" and i: "MIN_ORDER \<le> i" "i \<le> MAX_ORDER"
    and dv: "2 ^ i dvd addr" and lt: "addr < 2 ^ MAX_ORDER"
    by (simp_all add: aligned_block_def valid_order_def MEMORY_AREA_def)
  from i(1) dv have pfi: "PAGE_TO_ADDR ?fi = addr"
    by (rule aligned_page)
  show ?case
  proof (cases "\<exists>x\<in>set (free_area st i). block_address (g_pages st x) = ?B")
    case False
    then have "free_loop i addr ?fi st = Inr (list_add ?fi i (set_block_size ?fi (- 1) st))"
      using i by (intro free_loop_no_match) auto
    moreover have "allocator_inv (set_block_size ?fi (- 1) st, (PAGE_TO_ADDR ?fi, i) # L)"
      unfolding pfi using inv by (rule inv_mark)
    then have "allocator_inv (list_add ?fi i (set_block_size ?fi (- 1) st), L)"
      by (rule inv_give)
    ultimately show ?thesis
      by simp
  next
    case True
    then obtain x where "x \<in> set (free_area st i)" "block_address (g_pages st x) = ?B"
      by blast
    with i obtain bb where bb: "bb \<in> set (free_area st i)" "block_address (g_pages st bb) = ?B"
      and fl: "free_loop i addr ?fi st =
        (if addr > ?B then free_loop (i + 1) ?B (ADDR_TO_PAGE ?B) (list_del bb i st)
         else free_loop (i + 1) addr ?fi (list_del bb i st))"
      using free_loop_match [of i x st addr ?fi] by blast
    let ?st1 = "list_del bb i st"
    from inv vi bb(1) have i1: "allocator_inv (?st1, (PAGE_TO_ADDR bb, i) # (addr, i) # L)"
      by (rule inv_take)
    then have ab: "aligned_block (PAGE_TO_ADDR bb, i)"
      by (simp add: allocator_inv_def)
    then have bbn: "bb < PAGE_NUM"
      by (rule aligned_page_index)
    with pg bb(2) have pb: "PAGE_TO_ADDR bb = ?B"
      by (simp add: pages_ok_def)
    have iM: "i < MAX_ORDER"
    proof (rule ccontr)
      assume "\<not> i < MAX_ORDER"
      with i(2) have "i = MAX_ORDER" by simp
      with lt have "?B = addr + 2 ^ MAX_ORDER"
        unfolding BUDDY_ADDR_def by (simp add: xor_exp_above)
      moreover from ab have "PAGE_TO_ADDR bb < 2 ^ MAX_ORDER"
        by (simp add: aligned_block_def MEMORY_AREA_def)
      ultimately show False
        using pb by simp
    qed
    then have m: "MAX_ORDER - (i + 1) < MAX_ORDER - i"
      by simp
    show ?thesis
    proof (cases "2 ^ Suc i dvd addr")
      case True
      then have B: "?B = addr + 2 ^ i"
        unfolding BUDDY_ADDR_def by (rule xor_exp_aligned)
      have sX: "set [(PAGE_TO_ADDR bb, i), (addr, i)] = {(addr, i), (addr + 2 ^ i, i)}"
        unfolding pb B by auto
      have "allocator_inv (?st1, [(PAGE_TO_ADDR bb, i), (addr, i)] @ L)"
        using i1 by simp
      then have "allocator_inv (?st1, (addr, Suc i) # L)"
        using sX True iM by (rule inv_merge)
      then have "\<exists>st'. free_loop (i + 1) addr ?fi ?st1 = Inr st' \<and> allocator_inv (st', L)"
        using less.hyps [OF m, of ?st1 addr] by simp
      moreover have "free_loop i addr ?fi st = free_loop (i + 1) addr ?fi ?st1"
        unfolding fl B by simp
      ultimately show ?thesis
        by simp
    next
      case False
      with dv have u: "2 ^ i \<le> addr" "?B = addr - 2 ^ i" "2 ^ Suc i dvd addr - 2 ^ i"
        unfolding BUDDY_ADDR_def using xor_exp_unaligned [of i addr] by simp_all
      have p: "(0::nat) < 2 ^ i"
        by simp
      have up: "?B + 2 ^ i = addr"
        using u(1,2) by simp
      have gt: "addr > ?B"
        using u(1,2) p by linarith
      have dB: "2 ^ Suc i dvd ?B"
        using u(2,3) by simp
      have sX: "set [(PAGE_TO_ADDR bb, i), (addr, i)] = {(?B, i), (?B + 2 ^ i, i)}"
        unfolding up pb by auto
      have "allocator_inv (?st1, [(PAGE_TO_ADDR bb, i), (addr, i)] @ L)"
        using i1 by simp
      then have "allocator_inv (?st1, (?B, Suc i) # L)"
        using sX dB iM by (rule inv_merge)
      then have "\<exists>st'. free_loop (i + 1) ?B (ADDR_TO_PAGE ?B) ?st1 = Inr st' \<and> allocator_inv (st', L)"
        using less.hyps [OF m, of ?st1 ?B] by simp
      moreover have "free_loop i addr ?fi st = free_loop (i + 1) ?B (ADDR_TO_PAGE ?B) ?st1"
        unfolding fl using gt by simp
      ultimately show ?thesis
        by simp
    qed
  qed
qed

lemma pairwise_apart_eq:
  "pairwise_apart U \<Longrightarrow> overlap b c \<Longrightarrow> b \<in> U \<Longrightarrow> c \<in> U \<Longrightarrow> b = c"
  unfolding pairwise_apart_def by blast

lemma buddy_free_inv:
  assumes inv: "allocator_inv (st, L)" and live: "map_of L a = Some k"
    and free: "buddy_free a st = Inr st'"
  shows "allocator_inv (st', filter (\<lambda>b. fst b \<noteq> a) L)"
proof -
  let ?L' = "filter (\<lambda>b. fst b \<noteq> a) L"
  let ?p = "ADDR_TO_PAGE a"
  let ?bs = "block_size (g_pages st ?p)"
  from live have mem: "(a, k) \<in> set L"
    by (rule map_of_SomeD)
  with inv have h: "aligned_block (a, k)" and o: "order_le st (a, k)" and s: "sizes_ok st"
    and apart: "pairwise_apart (free_set st \<union> set L)" and d: "distinct L"
    by (auto simp: allocator_inv_def)
  from h have p: "?p < PAGE_NUM" and k: "valid_order k"
    by (simp_all add: aligned_block_def ADDR_TO_PAGE_bound)
  from free p have nn: "0 \<le> ?bs" and fl: "free_loop (nat ?bs) a ?p st = Inr st'"
    by (simp_all add: buddy_free_def Let_def split: if_splits)
  with s p have r: "int MIN_ORDER \<le> ?bs"
    by (auto simp: sizes_ok_def)
  from o have le: "?bs \<le> int k"
    by (simp add: order_le_def)
  have only: "b = (a, k)" if "b \<in> set L" "fst b = a" for b
  proof -
    from that(2) have "overlap (a, k) b"
      using same_start_overlap [of a k "snd b"] by (cases b) simp
    with apart have "(a, k) = b"
      by (rule pairwise_apart_eq) (use mem that(1) in simp_all)
    then show ?thesis ..
  qed
  have se: "set ((a, k) # ?L') = set L"
  proof (intro set_eqI iffI)
    fix b
    assume "b \<in> set ((a, k) # ?L')"
    with mem show "b \<in> set L"
      by auto
  next
    fix b
    assume b: "b \<in> set L"
    show "b \<in> set ((a, k) # ?L')"
    proof (cases "fst b = a")
      case True
      with b have "b = (a, k)" by (rule only)
      then show ?thesis by simp
    next
      case False
      with b show ?thesis by simp
    qed
  qed
  have di: "distinct ((a, k) # ?L')"
    using d by simp
  have vb: "valid_order (nat ?bs)" and lb: "nat ?bs \<le> k"
    and ob: "block_size (g_pages st ?p) \<le> int (nat ?bs)"
    using r le k nn unfolding valid_order_def by linarith+
  have "allocator_inv (st, (a, k) # ?L')"
    using inv se di by (rule inv_cong)
  then have "allocator_inv (st, (a, nat ?bs) # ?L')"
    using vb lb ob by (rule inv_shrink)
  then have "\<exists>st''. free_loop (nat ?bs) a ?p st = Inr st'' \<and> allocator_inv (st'', ?L')"
    by (rule free_loop_inv)
  with fl show ?thesis
    by simp
qed

lemma step_inv:
  assumes "allocator_inv c" "step x c = Some c'"
  shows "allocator_inv c'"
proof -
  obtain st L where c: "c = (st, L)"
    by (cases c)
  from assms(1) have inv: "allocator_inv (st, L)"
    unfolding c .
  show ?thesis
  proof (cases x)
    case (Alloc sz)
    with assms(2) have s: "step (Alloc sz) (st, L) = Some c'"
      unfolding c by simp
    from buddy_alloc_inv [OF inv, of sz] show ?thesis
    proof (elim disjE exE conjE)
      assume "buddy_alloc sz st = Inr (NULL, st)"
      with s have "c' = (st, L)" by simp
      with inv show ?thesis by simp
    next
      fix a st'
      assume "buddy_alloc sz st = Inr (Addr a, st')"
        and i: "allocator_inv (st', (a, order_exp sz) # L)"
      with s have "c' = (st', (a, order_exp sz) # L)" by simp
      with i show ?thesis by simp
    qed
  next
    case (Free a)
    with assms(2) have s: "step (Free a) (st, L) = Some c'"
      unfolding c by simp
    then obtain k where k: "map_of L a = Some k"
      by (cases "map_of L a") simp_all
    with s obtain st' where f: "buddy_free a st = Inr st'"
      and c': "c' = (st', filter (\<lambda>b. fst b \<noteq> a) L)"
      by (cases "buddy_free a st") auto
    from inv k f show ?thesis
      unfolding c' by (rule buddy_free_inv)
  qed
qed

lemma run_inv:
  assumes "allocator_inv c" "run xs c = Some c'"
  shows "allocator_inv c'"
  using assms
proof (induction xs arbitrary: c)
  case Nil
  then show ?case by simp
next
  case (Cons x xs)
  from Cons.prems(2) obtain c1 where s: "step x c = Some c1" and r: "run xs c1 = Some c'"
    by (cases "step x c") simp_all
  from Cons.prems(1) s have "allocator_inv c1"
    by (rule step_inv)
  then show ?case
    using r by (rule Cons.IH)
qed

section \<open>Bounds on the step counts\<close>

lemma split_steps_le: "k \<le> MAX_ORDER \<Longrightarrow> split_steps k t idx st \<le> k - MIN_ORDER"
proof (induction k arbitrary: st)
  case 0
  show ?case
    by (subst split_steps.simps) simp
next
  case (Suc k)
  show ?case
  proof (cases "Suc k = t \<or> k < MIN_ORDER
      \<or> PAGE_NUM \<le> ADDR_TO_PAGE (BUDDY_ADDR (PAGE_TO_ADDR idx) k)")
    case True
    then show ?thesis
      by (subst split_steps.simps) (auto simp: Let_def)
  next
    case False
    let ?st1 = "list_add (ADDR_TO_PAGE (BUDDY_ADDR (PAGE_TO_ADDR idx) k)) k st"
    from Suc.prems have "split_steps k t idx ?st1 \<le> k - MIN_ORDER"
      by (intro Suc.IH) simp
    moreover have "split_steps (Suc k) t idx st = Suc (split_steps k t idx ?st1)"
      using False Suc.prems by (subst split_steps.simps) (simp add: Let_def)
    ultimately show ?thesis
      using False by arith
  qed
qed

lemma alloc_steps_le: "alloc_steps i t st \<le> MAX_ORDER - MIN_ORDER"
proof (induction i t st rule: alloc_steps.induct)
  case (1 i order st)
  show ?case
  proof (cases "i \<le> MAX_ORDER")
    case False
    then show ?thesis
      by (subst alloc_steps.simps) simp
  next
    case le: True
    show ?thesis
    proof (cases "list_empty i st")
      case True
      with le "1.IH" have "alloc_steps (i + 1) order st \<le> MAX_ORDER - MIN_ORDER"
        by simp
      with le True show ?thesis
        by (subst alloc_steps.simps) simp
    next
      case False
      have "split_steps i order idx st' \<le> MAX_ORDER - MIN_ORDER" for idx st'
        using split_steps_le [OF le, of order idx st'] le by simp
      with le False show ?thesis
        by (subst alloc_steps.simps) (simp add: Let_def)
    qed
  qed
qed

lemma free_steps_le:
  assumes "addr < MEMORY_AREA"
    and "\<forall>p\<in>set (free_area st MAX_ORDER). block_address (g_pages st p) < MEMORY_AREA"
  shows "free_steps i addr fi st \<le> MAX_ORDER - i"
  using assms
proof (induction i addr fi st rule: free_steps.induct)
  case (1 i addr free_index st)
  let ?B = "BUDDY_ADDR addr i"
  let ?scan = "scan_list (g_pages st) ?B None (free_area st i)"
  show ?case
  proof (cases "i \<le> MAX_ORDER \<and> \<not> i < MIN_ORDER \<and>
      (\<exists>bb. ?scan = Some bb \<and> block_address (g_pages st bb) = ?B)")
    case False
    then show ?thesis
      by (subst free_steps.simps) (auto split: option.splits)
  next
    case True
    then obtain bb where i: "i \<le> MAX_ORDER" "\<not> i < MIN_ORDER" and sc: "?scan = Some bb"
      and ad: "block_address (g_pages st bb) = ?B"
      by blast
    have mem: "bb \<in> set (free_area st i)"
    proof (cases "\<exists>x\<in>set (free_area st i). block_address (g_pages st x) = ?B")
      case True
      then obtain x where "x \<in> set (free_area st i)" "block_address (g_pages st x) = ?B"
        by blast
      with scan_list_match [of x "free_area st i" "g_pages st" ?B None] sc show ?thesis
        by auto
    next
      case False
      then have "?scan = (if free_area st i = [] then None else Some (last (free_area st i)))"
        by (intro scan_list_no_match) simp
      with sc show ?thesis
        by (auto split: if_splits)
    qed
    have lt: "i < MAX_ORDER"
    proof (rule ccontr)
      assume "\<not> i < MAX_ORDER"
      with i(1) have e: "i = MAX_ORDER" by simp
      from "1.prems"(1) have "?B = addr + 2 ^ MAX_ORDER"
        unfolding BUDDY_ADDR_def e MEMORY_AREA_def by (rule xor_exp_above)
      moreover from mem "1.prems"(2) have "block_address (g_pages st bb) < 2 ^ MAX_ORDER"
        unfolding e MEMORY_AREA_def by blast
      ultimately show False
        using ad by simp
    qed
    let ?st1 = "list_del bb i st"
    have keep: "\<forall>p\<in>set (free_area ?st1 MAX_ORDER). block_address (g_pages ?st1 p) < MEMORY_AREA"
      using "1.prems"(2) lt by simp
    show ?thesis
    proof (cases "addr > block_address (g_pages st bb)")
      case True
      with "1.prems"(1) have "block_address (g_pages st bb) < MEMORY_AREA"
        by simp
      then have "free_steps (i + 1) (block_address (g_pages st bb))
          (ADDR_TO_PAGE (block_address (g_pages st bb))) ?st1 \<le> MAX_ORDER - (i + 1)"
        using i sc ad True keep by (intro "1.IH"(1)) simp_all
      moreover have "free_steps i addr free_index st =
          Suc (free_steps (i + 1) (block_address (g_pages st bb))
            (ADDR_TO_PAGE (block_address (g_pages st bb))) ?st1)"
        using i sc ad True by (subst free_steps.simps) simp
      ultimately show ?thesis
        using lt by simp
    next
      case False
      have "free_steps (i + 1) addr free_index ?st1 \<le> MAX_ORDER - (i + 1)"
        using i sc ad False keep "1.prems"(1) by (intro "1.IH"(2)) simp_all
      moreover have "free_steps i addr free_index st = Suc (free_steps (i + 1) addr free_index ?st1)"
        using i sc ad False by (subst free_steps.simps) simp
      ultimately show ?thesis
        using lt by simp
    qed
  qed
qed

lemma free_loop_returns:
  "MIN_ORDER \<le> i \<Longrightarrow> \<exists>st'. free_loop i addr fi st = Inr st'"
proof (induction i addr fi st rule: free_loop.induct)
  case (1 i addr free_index st)
  let ?B = "BUDDY_ADDR addr i"
  let ?scan = "scan_list (g_pages st) ?B None (free_area st i)"
  show ?case
  proof (cases "i \<le> MAX_ORDER \<and> (\<exists>bb. ?scan = Some bb \<and> block_address (g_pages st bb) = ?B)")
    case False
    with "1.prems" show ?thesis
      by (subst free_loop.simps) (auto split: option.splits)
  next
    case True
    then obtain bb where i: "i \<le> MAX_ORDER" and sc: "?scan = Some bb"
      and ad: "block_address (g_pages st bb) = ?B"
      by blast
    show ?thesis
    proof (cases "addr > block_address (g_pages st bb)")
      case True
      then have "\<exists>st'. free_loop (i + 1) (block_address (g_pages st bb))
          (ADDR_TO_PAGE (block_address (g_pages st bb))) (list_del bb i st) = Inr st'"
        using i sc ad "1.prems" by (intro "1.IH"(1)) simp_all
      moreover have "free_loop i addr free_index st =
          free_loop (i + 1) (block_address (g_pages st bb))
            (ADDR_TO_PAGE (block_address (g_pages st bb))) (list_del bb i st)"
        using i sc ad True "1.prems" by (subst free_loop.simps) simp
      ultimately show ?thesis
        by simp
    next
      case False
      then have "\<exists>st'. free_loop (i + 1) addr free_index (list_del bb i st) = Inr st'"
        using i sc ad "1.prems" by (intro "1.IH"(2)) simp_all
      moreover have "free_loop i addr free_index st =
          free_loop (i + 1) addr free_index (list_del bb i st)"
        using i sc ad False "1.prems" by (subst free_loop.simps) simp
      ultimately show ?thesis
        by simp
    qed
  qed
qed

lemma ADDR_TO_PAGE_arena: "ADDR_TO_PAGE addr < PAGE_NUM \<Longrightarrow> addr < MEMORY_AREA"
  by (simp add: ADDR_TO_PAGE_def MEMORY_AREA_pages div_less_iff_less_mult PAGE_SIZE_pos)

lemma inv_top_list:
  assumes "allocator_inv (st, L)"
  shows "\<forall>p\<in>set (free_area st MAX_ORDER). block_address (g_pages st p) < MEMORY_AREA"
proof
  fix p
  assume "p \<in> set (free_area st MAX_ORDER)"
  then have "(PAGE_TO_ADDR p, MAX_ORDER) \<in> free_set st"
    by (intro free_setI) (simp_all add: valid_order_def MIN_le_MAX)
  with assms have "aligned_block (PAGE_TO_ADDR p, MAX_ORDER)"
    by (simp add: allocator_inv_def)
  then have a: "PAGE_TO_ADDR p < MEMORY_AREA" and "p < PAGE_NUM"
    by (simp_all add: aligned_block_def PAGE_TO_ADDR_less)
  with assms have "block_address (g_pages st p) = PAGE_TO_ADDR p"
    by (simp add: allocator_inv_def pages_ok_def)
  with a show "block_address (g_pages st p) < MEMORY_AREA"
    by simp
qed

lemma buddy_free_steps_le:
  assumes "allocator_inv (st, L)"
  shows "buddy_free_steps addr st \<le> MAX_ORDER - MIN_ORDER"
proof (cases "ADDR_TO_PAGE addr < PAGE_NUM \<and>
    int MIN_ORDER \<le> block_size (g_pages st (ADDR_TO_PAGE addr))")
  case True
  let ?i = "nat (block_size (g_pages st (ADDR_TO_PAGE addr)))"
  from True have "addr < MEMORY_AREA"
    by (simp add: ADDR_TO_PAGE_arena)
  then have "free_steps ?i addr (ADDR_TO_PAGE addr) st \<le> MAX_ORDER - ?i"
    using inv_top_list [OF assms] by (rule free_steps_le)
  moreover have "MIN_ORDER \<le> ?i"
    using True by linarith
  ultimately have "free_steps ?i addr (ADDR_TO_PAGE addr) st \<le> MAX_ORDER - MIN_ORDER"
    by linarith
  with True show ?thesis
    by (simp add: buddy_free_steps_def Let_def)
next
  case False
  have "0 < MIN_ORDER"
    by (simp add: MIN_ORDER_def)
  with False have "nat (block_size (g_pages st (ADDR_TO_PAGE addr))) < MIN_ORDER"
    if "ADDR_TO_PAGE addr < PAGE_NUM"
    using that by linarith
  then show ?thesis
    by (subst buddy_free_steps_def) (simp add: Let_def free_steps.simps)
qed

lemma buddy_free_returns:
  assumes "ADDR_TO_PAGE addr < PAGE_NUM"
    and "int MIN_ORDER \<le> block_size (g_pages st (ADDR_TO_PAGE addr))"
  shows "\<exists>st'. buddy_free addr st = Inr st'"
proof -
  from assms(2) have "MIN_ORDER \<le> nat (block_size (g_pages st (ADDR_TO_PAGE addr)))"
    by simp
  then have "\<exists>st'. free_loop (nat (block_size (g_pages st (ADDR_TO_PAGE addr)))) addr
      (ADDR_TO_PAGE addr) st = Inr st'"
    by (rule free_loop_returns)
  with assms show ?thesis
    by (simp add: buddy_free_def Let_def)
qed

lemma buddy_free_faults:
  assumes "ADDR_TO_PAGE addr < PAGE_NUM"
    and "block_size (g_pages st (ADDR_TO_PAGE addr)) < int MIN_ORDER"
  shows "\<exists>f. buddy_free addr st = Inl f"
proof (cases "block_size (g_pages st (ADDR_TO_PAGE addr)) < 0")
  case True
  with assms(1) show ?thesis
    by (simp add: buddy_free_def Let_def)
next
  case False
  with assms(2) have "nat (block_size (g_pages st (ADDR_TO_PAGE addr))) < MIN_ORDER"
    by simp
  then have "free_loop (nat (block_size (g_pages st (ADDR_TO_PAGE addr)))) addr
      (ADDR_TO_PAGE addr) st = Inl Uninitialised_list"
    using MIN_le_MAX by (subst free_loop.simps) simp
  with assms(1) False show ?thesis
    by (simp add: buddy_free_def Let_def)
qed

lemmas steps_defs = buddy_alloc_steps_def buddy_free_steps_def alloc_steps.simps
  split_steps.simps free_steps.simps

subsection \<open>Each counted step is one list operation\<close>

lemma length_free_blocks:
  "length (free_blocks st) = sum_list (map (\<lambda>i. length (free_area st i)) [MIN_ORDER..<Suc MAX_ORDER])"
  by (simp add: free_blocks_def blocks_of_order_def length_concat comp_def)

lemma sum_list_update:
  assumes "i \<in> set xs" "distinct xs"
  shows "sum_list (map (f(i := v)) xs) + f i = sum_list (map f xs) + (v::nat)"
  using assms by (induction xs) auto

lemma valid_order_upt: "valid_order i \<longleftrightarrow> i \<in> set [MIN_ORDER..<Suc MAX_ORDER]"
  by (auto simp: valid_order_def)

lemma free_blocks_list_add:
  assumes "valid_order i"
  shows "length (free_blocks (list_add p i st)) = Suc (length (free_blocks st))"
proof -
  let ?f = "\<lambda>i. length (free_area st i)"
  let ?L = "[MIN_ORDER..<Suc MAX_ORDER]"
  have eq: "(\<lambda>j. length (free_area (list_add p i st) j)) = ?f(i := Suc (?f i))"
    by (simp add: fun_eq_iff)
  have s: "sum_list (map (?f(i := Suc (?f i))) ?L) + ?f i = sum_list (map ?f ?L) + Suc (?f i)"
    using assms unfolding valid_order_upt by (intro sum_list_update) simp_all
  have "length (free_blocks (list_add p i st)) = sum_list (map (?f(i := Suc (?f i))) ?L)"
    unfolding length_free_blocks eq ..
  moreover have "length (free_blocks st) = sum_list (map ?f ?L)"
    by (rule length_free_blocks)
  ultimately show ?thesis
    using s by linarith
qed

lemma free_blocks_list_del:
  assumes "valid_order i" "p \<in> set (free_area st i)"
  shows "Suc (length (free_blocks (list_del p i st))) = length (free_blocks st)"
proof -
  let ?f = "\<lambda>i. length (free_area st i)"
  let ?L = "[MIN_ORDER..<Suc MAX_ORDER]"
  from assms(2) have pos: "0 < ?f i"
    by (cases "free_area st i") simp_all
  have eq: "(\<lambda>j. length (free_area (list_del p i st) j)) = ?f(i := ?f i - 1)"
    using assms(2) by (simp add: fun_eq_iff length_remove1)
  have s: "sum_list (map (?f(i := ?f i - 1)) ?L) + ?f i = sum_list (map ?f ?L) + (?f i - 1)"
    using assms(1) unfolding valid_order_upt by (intro sum_list_update) simp_all
  have "length (free_blocks (list_del p i st)) = sum_list (map (?f(i := ?f i - 1)) ?L)"
    unfolding length_free_blocks eq ..
  moreover have "length (free_blocks st) = sum_list (map ?f ?L)"
    by (rule length_free_blocks)
  ultimately show ?thesis
    using s pos by linarith
qed

lemma free_blocks_set_block_size [simp]:
  "free_blocks (set_block_size p v st) = free_blocks st"
proof -
  have "blocks_of_order (set_block_size p v st) = blocks_of_order st"
    by (rule ext) (simp add: blocks_of_order_def)
  then show ?thesis
    by (simp only: free_blocks_def)
qed

lemma split_steps_count:
  "split k t idx st = Inr st' \<Longrightarrow>
   length (free_blocks st') = length (free_blocks st) + split_steps k t idx st"
proof (induction k arbitrary: st)
  case 0
  then show ?case
    by (subst split_steps.simps, subst (asm) split.simps) (simp split: if_splits)
next
  case (Suc k)
  show ?case
  proof (cases "Suc k = t")
    case True
    with Suc.prems show ?thesis
      by (subst split_steps.simps, subst (asm) split.simps) simp
  next
    case False
    let ?cp = "ADDR_TO_PAGE (BUDDY_ADDR (PAGE_TO_ADDR idx) k)"
    let ?st1 = "list_add ?cp k st"
    from Suc.prems False have c: "k \<le> MAX_ORDER" "MIN_ORDER \<le> k" "?cp < PAGE_NUM"
      and s: "split k t idx ?st1 = Inr st'"
      by (subst (asm) split.simps, simp add: Let_def split: if_splits)+
    from s have "length (free_blocks st') = length (free_blocks ?st1) + split_steps k t idx ?st1"
      by (rule Suc.IH)
    moreover have "length (free_blocks ?st1) = Suc (length (free_blocks st))"
      using c by (intro free_blocks_list_add) (simp add: valid_order_def)
    moreover have "split_steps (Suc k) t idx st = Suc (split_steps k t idx ?st1)"
      using False c by (subst split_steps.simps) (simp add: Let_def)
    ultimately show ?thesis
      by simp
  qed
qed

lemma alloc_steps_count:
  "alloc_loop i t st = Inr (Addr a, st') \<Longrightarrow> MIN_ORDER \<le> i \<Longrightarrow>
   Suc (length (free_blocks st')) = length (free_blocks st) + alloc_steps i t st"
proof (induction i t st rule: alloc_loop.induct)
  case (1 i order st)
  from "1.prems"(1) have le: "i \<le> MAX_ORDER"
    by (subst (asm) alloc_loop.simps) (simp split: if_splits)
  show ?case
  proof (cases "list_empty i st")
    case True
    with le "1.prems" have "alloc_loop (i + 1) order st = Inr (Addr a, st')"
      by (subst (asm) alloc_loop.simps) simp
    with le True "1.prems"(2) "1.IH"
    have "Suc (length (free_blocks st')) = length (free_blocks st) + alloc_steps (i + 1) order st"
      by simp
    with le True show ?thesis
      by (subst alloc_steps.simps) simp
  next
    case False
    let ?e = "hd (free_area st i)"
    let ?st1 = "list_del ?e i st"
    from False have mem: "?e \<in> set (free_area st i)"
      by (simp add: list_empty_def)
    from le "1.prems"(2) have v: "valid_order i"
      by (simp add: valid_order_def)
    then have d: "Suc (length (free_blocks ?st1)) = length (free_blocks st)"
      using mem by (rule free_blocks_list_del)
    show ?thesis
    proof (cases "i = order")
      case True
      with le False "1.prems"(1) have "st' = ?st1"
        by (subst (asm) alloc_loop.simps) (simp add: Let_def)
      with d le False True show ?thesis
        by (subst alloc_steps.simps) (simp add: Let_def)
    next
      case ne: False
      let ?st2 = "set_block_size ?e (int order) ?st1"
      from le False ne "1.prems"(1)
      have "split i order (page_index (g_pages st ?e)) ?st2 = Inr st'"
        by (subst (asm) alloc_loop.simps) (simp add: Let_def split: sum.splits)
      then have "length (free_blocks st') = length (free_blocks ?st2)
          + split_steps i order (page_index (g_pages st ?e)) ?st2"
        by (rule split_steps_count)
      moreover have "alloc_steps i order st = split_steps i order (page_index (g_pages st ?e)) ?st2"
        using le False ne by (subst alloc_steps.simps) (simp add: Let_def)
      ultimately show ?thesis
        using d by simp
    qed
  qed
qed

lemma scan_list_mem:
  "scan_list pg t acc xs = Some bb \<Longrightarrow> bb \<in> set xs \<or> acc = Some bb"
  by (induction xs arbitrary: acc) (auto split: if_splits)

lemma free_steps_count:
  assumes "free_loop i addr fi st = Inr st'" and "MIN_ORDER \<le> i" and "i \<le> MAX_ORDER"
    and "addr < MEMORY_AREA"
    and "\<forall>p\<in>set (free_area st MAX_ORDER). block_address (g_pages st p) < MEMORY_AREA"
  shows "length (free_blocks st') + free_steps i addr fi st = Suc (length (free_blocks st))"
  using assms
proof (induction i addr fi st rule: free_loop.induct)
  case (1 i addr free_index st)
  let ?B = "BUDDY_ADDR addr i"
  let ?scan = "scan_list (g_pages st) ?B None (free_area st i)"
  note le = "1.prems"(3)
  from le "1.prems"(2) have v: "valid_order i" and nl: "\<not> i < MIN_ORDER"
    by (simp_all add: valid_order_def)
  show ?case
  proof (cases "\<exists>bb. ?scan = Some bb \<and> block_address (g_pages st bb) = ?B")
    case False
    with le nl "1.prems"(1) have "st' = list_add free_index i (set_block_size free_index (- 1) st)"
      by (subst (asm) free_loop.simps) (auto split: option.splits)
    moreover have "free_steps i addr free_index st = 0"
      using False le by (subst free_steps.simps) (auto split: option.splits)
    ultimately show ?thesis
      using v by (simp add: free_blocks_list_add)
  next
    case True
    then obtain bb where sc: "?scan = Some bb" and ad: "block_address (g_pages st bb) = ?B"
      by blast
    from sc have mem: "bb \<in> set (free_area st i)"
      using scan_list_mem [of "g_pages st" ?B None "free_area st i" bb] by simp
    have lt: "i < MAX_ORDER"
    proof (rule ccontr)
      assume "\<not> i < MAX_ORDER"
      with le have e: "i = MAX_ORDER" by simp
      from "1.prems"(4) have "?B = addr + 2 ^ MAX_ORDER"
        unfolding BUDDY_ADDR_def e MEMORY_AREA_def by (rule xor_exp_above)
      moreover from mem "1.prems"(5) have "block_address (g_pages st bb) < 2 ^ MAX_ORDER"
        unfolding e MEMORY_AREA_def by blast
      ultimately show False
        using ad by simp
    qed
    let ?st1 = "list_del bb i st"
    have keep: "\<forall>p\<in>set (free_area ?st1 MAX_ORDER). block_address (g_pages ?st1 p) < MEMORY_AREA"
      using "1.prems"(5) lt by simp
    have del: "Suc (length (free_blocks ?st1)) = length (free_blocks st)"
      using v mem by (rule free_blocks_list_del)
    show ?thesis
    proof (cases "addr > block_address (g_pages st bb)")
      case True
      let ?a = "block_address (g_pages st bb)"
      from True "1.prems"(4) have a: "?a < MEMORY_AREA"
        by simp
      have r: "free_loop (i + 1) ?a (ADDR_TO_PAGE ?a) ?st1 = Inr st'"
        using "1.prems"(1) le nl sc ad True by (subst (asm) free_loop.simps) simp
      have "length (free_blocks st') + free_steps (i + 1) ?a (ADDR_TO_PAGE ?a) ?st1
          = Suc (length (free_blocks ?st1))"
        using le nl sc ad True r "1.prems"(2) lt a keep by (intro "1.IH"(1)) simp_all
      moreover have "free_steps i addr free_index st
          = Suc (free_steps (i + 1) ?a (ADDR_TO_PAGE ?a) ?st1)"
        using le nl sc ad True by (subst free_steps.simps) simp
      ultimately show ?thesis
        using del by simp
    next
      case False
      have r: "free_loop (i + 1) addr free_index ?st1 = Inr st'"
        using "1.prems"(1) le nl sc ad False by (subst (asm) free_loop.simps) simp
      have "length (free_blocks st') + free_steps (i + 1) addr free_index ?st1
          = Suc (length (free_blocks ?st1))"
        using le nl sc ad False r "1.prems"(2,4) lt keep by (intro "1.IH"(2)) simp_all
      moreover have "free_steps i addr free_index st
          = Suc (free_steps (i + 1) addr free_index ?st1)"
        using le nl sc ad False by (subst free_steps.simps) simp
      ultimately show ?thesis
        using del by simp
    qed
  qed
qed

lemma buddy_alloc_steps_count:
  assumes "buddy_alloc sz st = Inr (Addr a, st')"
  shows "Suc (length (free_blocks st')) = length (free_blocks st) + buddy_alloc_steps sz st"
  using assms order_exp_range [of sz]
  unfolding buddy_alloc_def buddy_alloc_steps_def Let_def
  by (intro alloc_steps_count) simp_all

lemma buddy_free_steps_count:
  assumes inv: "allocator_inv (st, L)" and free: "buddy_free addr st = Inr st'"
  shows "length (free_blocks st') + buddy_free_steps addr st = Suc (length (free_blocks st))"
proof -
  let ?p = "ADDR_TO_PAGE addr"
  let ?bs = "block_size (g_pages st ?p)"
  from free have p: "?p < PAGE_NUM"
    by (simp add: buddy_free_def Let_def split: if_splits)
  with free have nn: "0 \<le> ?bs" and fl: "free_loop (nat ?bs) addr ?p st = Inr st'"
    by (simp_all add: buddy_free_def Let_def split: if_splits)
  from inv have "sizes_ok st"
    by (simp add: allocator_inv_def)
  with p nn have r: "int MIN_ORDER \<le> ?bs" "?bs \<le> int MAX_ORDER"
    by (auto simp: sizes_ok_def)
  then have b: "MIN_ORDER \<le> nat ?bs" "nat ?bs \<le> MAX_ORDER"
    by linarith+
  from p have a: "addr < MEMORY_AREA"
    by (rule ADDR_TO_PAGE_arena)
  have "length (free_blocks st') + free_steps (nat ?bs) addr ?p st = Suc (length (free_blocks st))"
    using fl b a inv_top_list [OF inv] by (rule free_steps_count)
  moreover have "buddy_free_steps addr st = free_steps (nat ?bs) addr ?p st"
    using p nn by (simp add: buddy_free_steps_def Let_def)
  ultimately show ?thesis
    by simp
qed

text \<open>
  The work of one call, in every state reached from \<^verbatim>\<open>buddy_init\<close>. \<^verbatim>\<open>buddy_alloc\<close> returns,
  for any size, after at most \<^verbatim>\<open>MAX_ORDER - MIN_ORDER\<close> halving steps. \<^verbatim>\<open>buddy_free\<close>
  performs at most \<^verbatim>\<open>MAX_ORDER - MIN_ORDER\<close> merges for any address; it returns when the
  address is in the arena and the order field it reads is at least \<^verbatim>\<open>MIN_ORDER\<close>, and
  otherwise its first access to \<^verbatim>\<open>free_area\<close> is outside the initialised lists. The
  counts are the counts of list operations: a successful \<^verbatim>\<open>buddy_alloc\<close> unlinks one block
  and links one per halving step, and a \<^verbatim>\<open>buddy_free\<close> that returns unlinks one buddy per
  merge and links one block.
\<close>

lemma call_steps_bounded:
  assumes "run cs (buddy_init st0, []) = Some (st, live)"
  shows "(\<exists>r. buddy_alloc sz st = Inr r) \<and>
    buddy_alloc_steps sz st \<le> MAX_ORDER - MIN_ORDER \<and>
    (\<forall>a st'. buddy_alloc sz st = Inr (Addr a, st') \<longrightarrow>
       Suc (length (free_blocks st')) = length (free_blocks st) + buddy_alloc_steps sz st) \<and>
    buddy_free_steps addr st \<le> MAX_ORDER - MIN_ORDER \<and>
    (\<forall>st'. buddy_free addr st = Inr st' \<longrightarrow>
       length (free_blocks st') + buddy_free_steps addr st = Suc (length (free_blocks st))) \<and>
    (ADDR_TO_PAGE addr < PAGE_NUM \<and> int MIN_ORDER \<le> block_size (g_pages st (ADDR_TO_PAGE addr))
       \<longrightarrow> (\<exists>st'. buddy_free addr st = Inr st')) \<and>
    (ADDR_TO_PAGE addr < PAGE_NUM \<and> block_size (g_pages st (ADDR_TO_PAGE addr)) < int MIN_ORDER
       \<longrightarrow> (\<exists>f. buddy_free addr st = Inl f))"
proof -
  have inv: "allocator_inv (st, live)"
    using init_inv assms by (rule run_inv)
  have "\<exists>r. buddy_alloc sz st = Inr r"
    using buddy_alloc_inv [OF inv, of sz] by auto
  moreover have "buddy_alloc_steps sz st \<le> MAX_ORDER - MIN_ORDER"
    unfolding buddy_alloc_steps_def Let_def by (rule alloc_steps_le)
  moreover have "buddy_free_steps addr st \<le> MAX_ORDER - MIN_ORDER"
    using inv by (rule buddy_free_steps_le)
  moreover have "\<forall>a st'. buddy_alloc sz st = Inr (Addr a, st') \<longrightarrow>
       Suc (length (free_blocks st')) = length (free_blocks st) + buddy_alloc_steps sz st"
    using buddy_alloc_steps_count by blast
  moreover have "\<forall>st'. buddy_free addr st = Inr st' \<longrightarrow>
       length (free_blocks st') + buddy_free_steps addr st = Suc (length (free_blocks st))"
    using buddy_free_steps_count [OF inv] by blast
  ultimately show ?thesis
    using buddy_free_returns [of addr st] buddy_free_faults [of addr st] by blast
qed

lemma call_steps_bounded_example:
  "run [Alloc 4096] (buddy_init startup, []) \<noteq> None \<and>
   (\<exists>r. buddy_alloc 8192 (fst (the (run [Alloc 4096] (buddy_init startup, [])))) = Inr r) \<and>
   buddy_alloc_steps 8192 (fst (the (run [Alloc 4096] (buddy_init startup, [])))) = 0 \<and>
   buddy_alloc_steps 4096 (buddy_init startup) = 8 \<and>
   buddy_free_steps 0 (fst (the (run [Alloc 4096] (buddy_init startup, [])))) = 8 \<and>
   (\<exists>st'. buddy_free 0 (fst (the (run [Alloc 4096] (buddy_init startup, [])))) = Inr st') \<and>
   (\<exists>f. buddy_free 4096 (fst (the (run [Alloc 4096] (buddy_init startup, [])))) = Inl f)"
proof -
  define c where "c = the (run [Alloc 4096] (buddy_init startup, []))"
  have r: "run [Alloc 4096] (buddy_init startup, []) = Some (fst c, snd c)"
    unfolding c_def by (simp add: run_defs order_exp_4096)
  have h1: "ADDR_TO_PAGE 0 < PAGE_NUM \<and> int MIN_ORDER \<le> block_size (g_pages (fst c) (ADDR_TO_PAGE 0))"
    unfolding c_def by (simp add: run_defs order_exp_4096)
  have h2: "ADDR_TO_PAGE 4096 < PAGE_NUM \<and>
      block_size (g_pages (fst c) (ADDR_TO_PAGE 4096)) < int MIN_ORDER"
    unfolding c_def by (simp add: run_defs order_exp_4096)
  have e1: "buddy_alloc_steps 8192 (fst c) = 0"
    unfolding c_def by (simp add: run_defs steps_defs order_exp_4096 order_exp_8192)
  have e2: "buddy_alloc_steps 4096 (buddy_init startup) = 8"
    by (simp add: run_defs steps_defs order_exp_4096)
  have e3: "buddy_free_steps 0 (fst c) = 8"
    unfolding c_def by (simp add: run_defs steps_defs order_exp_4096)
  note t1 = call_steps_bounded [OF r, of 8192 0]
  note t2 = call_steps_bounded [OF r, of 8192 4096]
  have n: "run [Alloc 4096] (buddy_init startup, []) \<noteq> None"
    unfolding r by simp
  have a: "\<exists>x. buddy_alloc 8192 (fst c) = Inr x"
    using t1 by (rule conjunct1)
  have f: "\<exists>st'. buddy_free 0 (fst c) = Inr st'"
    using t1 h1 by blast
  have g: "\<exists>f. buddy_free 4096 (fst c) = Inl f"
    using t2 h2 by blast
  show ?thesis
    unfolding c_def [symmetric] using n a e1 e2 e3 f g by (intro conjI)
qed

section \<open>The claims\<close>

text \<open>
  C1 (partition invariant over every sequence of calls). The code does not keep it. The
  branch of \<^verbatim>\<open>buddy_alloc\<close> that finds a block of exactly the requested order returns it
  without writing \<^verbatim>\<open>block_size\<close>, so the record keeps whatever an earlier allocation
  left there. Below, page 2 is first allocated with order 12 and freed (it merges into
  page 0, and its own field stays 12); then it is handed out again as a block of order
  13 and freed: \<^verbatim>\<open>buddy_free\<close> reads 12, links page 2 into the list of order 12, and
  page 3 (bytes 12288 .. 16383) is left in no free block and in no live block.
\<close>

theorem partition_lost_after_stale_order:
  "map_option (\<lambda>c. (snd c, free_lists c, covered c 12288))
     (run [Alloc 8192, Alloc 4096, Free 0, Free 8192, Alloc 8192, Alloc 8192, Free 8192]
        (buddy_init startup, []))
   = Some ([(0, 13)], [[2], [], [4], [8], [16], [32], [64], [128], []], False)"
  by (simp add: run_defs order_exp_4096 order_exp_8192 observe_defs)

text \<open>
  C2 (sizes \<^verbatim>\<open>size <= 0\<close> and \<^verbatim>\<open>size > 2^MAX_ORDER\<close> are rejected with no change of
  state). This version of \<^verbatim>\<open>buddy_alloc\<close> has no such check (the draft in \<^verbatim>\<open>buddy.c\<close>
  has it): size 0 is served as a request of order 12 and size \<^verbatim>\<open>2^20 + 1\<close> as one of
  order 20. From the initial state both return the arena base, and the free lists
  change.
\<close>

theorem alloc_serves_invalid_size:
  "map_sum id fst (buddy_alloc 0 (buddy_init startup)) = Inr (Addr 0) \<and>
   map_sum id fst (buddy_alloc 1048577 (buddy_init startup)) = Inr (Addr 0) \<and>
   map_option free_lists (run [Alloc 0] (buddy_init startup, []))
     = Some [[1], [2], [4], [8], [16], [32], [64], [128], []] \<and>
   map_option free_lists (run [Alloc 1048577] (buddy_init startup, []))
     = Some [[], [], [], [], [], [], [], [], []] \<and>
   free_lists (buddy_init startup, []) = [[], [], [], [], [], [], [], [], [0]]"
  by (simp add: run_defs order_exp_zero order_exp_too_big observe_defs)

text \<open>
  C3 (the scan for a free block). With \<^verbatim>\<open>o = order_exp(size)\<close>: if every list of the
  orders \<^verbatim>\<open>o .. MAX_ORDER\<close> is empty, \<^verbatim>\<open>buddy_alloc\<close> returns the null pointer and the
  state is unchanged; if \<^verbatim>\<open>k\<close> is the first order from \<^verbatim>\<open>o\<close> up to \<^verbatim>\<open>MAX_ORDER\<close>
  (inclusive) whose list is not empty, the call succeeds with the address of the first
  record of that list, which is unlinked from it. From the initial state a first request
  of 600000 bytes returns the arena base, and a second one the null pointer. The theorem
  holds for every \<^verbatim>\<open>size\<close>, the valid ones included.
\<close>

theorem alloc_uses_first_nonempty_list:
  "((\<forall>i. order_exp sz \<le> i \<and> i \<le> MAX_ORDER \<longrightarrow> free_area st i = []) \<longrightarrow>
      buddy_alloc sz st = Inr (NULL, st)) \<and>
   (order_exp sz \<le> k \<and> k \<le> MAX_ORDER \<and> free_area st k \<noteq> [] \<and>
    (\<forall>i. order_exp sz \<le> i \<and> i < k \<longrightarrow> free_area st i = []) \<and>
    page_index (g_pages st (hd (free_area st k))) < PAGE_NUM \<longrightarrow>
      (\<exists>st'. buddy_alloc sz st = Inr (Addr (block_address (g_pages st (hd (free_area st k)))), st') \<and>
         free_area st' k = tl (free_area st k))) \<and>
   (\<exists>st1. buddy_alloc 600000 (buddy_init st0) = Inr (Addr 0, st1) \<and>
      buddy_alloc 600000 st1 = Inr (NULL, st1))"
proof (intro conjI impI)
  assume "\<forall>i. order_exp sz \<le> i \<and> i \<le> MAX_ORDER \<longrightarrow> free_area st i = []"
  then show "buddy_alloc sz st = Inr (NULL, st)"
    unfolding buddy_alloc_def Let_def by (rule alloc_loop_exhausted)
next
  assume a: "order_exp sz \<le> k \<and> k \<le> MAX_ORDER \<and> free_area st k \<noteq> [] \<and>
    (\<forall>i. order_exp sz \<le> i \<and> i < k \<longrightarrow> free_area st i = []) \<and>
    page_index (g_pages st (hd (free_area st k))) < PAGE_NUM"
  then have b: "buddy_alloc sz st = alloc_loop k (order_exp sz) st"
    by (intro buddy_alloc_first_nonempty) auto
  show "\<exists>st'. buddy_alloc sz st = Inr (Addr (block_address (g_pages st (hd (free_area st k)))), st') \<and>
         free_area st' k = tl (free_area st k)"
  proof (cases "k = order_exp sz")
    case True
    with a alloc_loop_exact [of k st] show ?thesis
      unfolding b by auto
  next
    case False
    with a order_exp_range [of sz]
      alloc_loop_larger [of k "order_exp sz" st] show ?thesis
      unfolding b by auto
  qed
next
  show "\<exists>st1. buddy_alloc 600000 (buddy_init st0) = Inr (Addr 0, st1) \<and>
      buddy_alloc 600000 st1 = Inr (NULL, st1)"
    by (simp add: run_defs order_exp_600000)
qed

theorem alloc_uses_first_nonempty_list_witness:
  "(\<exists>st'. buddy_alloc 4096 (buddy_init startup) = Inr (Addr 0, st') \<and> free_area st' 20 = []) \<and>
   buddy_alloc 8192 (list_del 0 20 (buddy_init startup)) = Inr (NULL, list_del 0 20 (buddy_init startup))"
  using alloc_uses_first_nonempty_list [of 4096 "buddy_init startup" 20 startup]
    alloc_uses_first_nonempty_list [of 8192 "list_del 0 20 (buddy_init startup)" 20 startup]
  by (simp add: order_exp_4096 order_exp_8192 buddy_init_eq const_defs init_page_def)

text \<open>
  C4 (state after \<^verbatim>\<open>buddy_init\<close>, and idempotence). Whatever the state before the
  call, afterwards every list of the orders below \<^verbatim>\<open>MAX_ORDER\<close> is empty, the list of
  \<^verbatim>\<open>MAX_ORDER\<close> holds page 0 alone, the record of page 0 has \<^verbatim>\<open>block_size = MAX_ORDER\<close>,
  and every other record of the array has \<^verbatim>\<open>block_size = -1\<close> (with its own index and
  address). The lists and the records after the call are the same from any two states
  \<^verbatim>\<open>st\<close> and \<^verbatim>\<open>st2\<close> before it, so running \<^verbatim>\<open>buddy_init\<close> again, from any state
  reached in between, gives this state again.
\<close>

theorem buddy_init_resets:
  "(\<forall>i. MIN_ORDER \<le> i \<and> i < MAX_ORDER \<longrightarrow> free_area (buddy_init st) i = []) \<and>
   free_area (buddy_init st) MAX_ORDER = [0] \<and>
   g_pages (buddy_init st) 0 = (init_page 0)\<lparr>block_size := int MAX_ORDER\<rparr> \<and>
   (\<forall>p. 0 < p \<and> p < PAGE_NUM \<longrightarrow> g_pages (buddy_init st) p = init_page p) \<and>
   (\<forall>i. MIN_ORDER \<le> i \<and> i \<le> MAX_ORDER \<longrightarrow>
      free_area (buddy_init st) i = free_area (buddy_init st2) i) \<and>
   (\<forall>p<PAGE_NUM. g_pages (buddy_init st) p = g_pages (buddy_init st2) p) \<and>
   buddy_init (buddy_init st) = buddy_init st"
proof -
  have "buddy_init (buddy_init st) = buddy_init st"
    by (simp add: buddy_init_eq fun_eq_iff)
  then show ?thesis
    by (simp add: buddy_init_eq init_page_def PAGE_TO_ADDR_def)
qed

theorem buddy_init_resets_witness:
  "free_area (buddy_init startup) 12 = [] \<and> free_area (buddy_init startup) 20 = [0] \<and>
   block_size (g_pages (buddy_init startup) 0) = 20 \<and>
   block_size (g_pages (buddy_init startup) 255) = - 1 \<and>
   free_area (buddy_init (list_add 7 13 (buddy_init startup))) 13 = free_area (buddy_init startup) 13 \<and>
   g_pages (buddy_init (set_block_size 9 14 (buddy_init startup))) 9 = g_pages (buddy_init startup) 9"
  using buddy_init_resets [of startup startup]
    buddy_init_resets [of "list_add 7 13 (buddy_init startup)" startup]
    buddy_init_resets [of "set_block_size 9 14 (buddy_init startup)" startup]
  by (simp add: const_defs init_page_def)

text \<open>
  C5 (the address returned by a successful \<^verbatim>\<open>buddy_alloc\<close>). In every state reached from
  \<^verbatim>\<open>buddy_init\<close> by a sequence of calls in which every \<^verbatim>\<open>buddy_free\<close> is given a live
  address and no call has faulted, an address returned by \<^verbatim>\<open>buddy_alloc(size)\<close>, for any
  \<^verbatim>\<open>size\<close>, is a multiple of \<^verbatim>\<open>2^order_exp(size)\<close>, the \<^verbatim>\<open>2^order_exp(size)\<close> bytes from
  it lie inside the arena, and they overlap no other live allocation (each taken with
  the \<^verbatim>\<open>2^order_exp\<close> bytes of its own request).
\<close>

theorem alloc_result_aligned_and_disjoint:
  assumes "run cs (buddy_init st0, []) = Some (st, live)"
    and "buddy_alloc sz st = Inr (Addr a, st')"
  shows "a + 2 ^ order_exp sz \<le> MEMORY_AREA \<and> 2 ^ order_exp sz dvd a \<and>
    (\<forall>b\<in>set live. \<not> overlap (a, order_exp sz) b)"
proof -
  let ?h = "(a, order_exp sz)"
  have "allocator_inv (st, live)"
    using init_inv assms(1) by (rule run_inv)
  with assms(2) have i: "allocator_inv (st', ?h # live)"
    using buddy_alloc_inv [of st live sz] by auto
  then have h: "aligned_block ?h"
    by (simp add: allocator_inv_def)
  from i have pa: "pairwise_apart (free_set st' \<union> set (?h # live))" and nin: "?h \<notin> set live"
    by (simp_all add: allocator_inv_def)
  have "\<not> overlap ?h b" if b: "b \<in> set live" for b
  proof
    assume "overlap ?h b"
    with pa have "?h = b"
      by (rule pairwise_apart_eq) (use b in simp_all)
    with nin b show False
      by simp
  qed
  with h block_end [of a "order_exp sz"] show ?thesis
    by (simp add: aligned_block_def)
qed

theorem alloc_result_aligned_and_disjoint_witness:
  "run [Alloc 4096] (buddy_init startup, []) = Some (fst (the (run [Alloc 4096] (buddy_init startup, []))), [(0, 12)]) \<and>
   map_sum id fst (buddy_alloc 8192 (fst (the (run [Alloc 4096] (buddy_init startup, []))))) = Inr (Addr 8192) \<and>
   8192 + 2 ^ order_exp 8192 \<le> MEMORY_AREA \<and> 2 ^ order_exp 8192 dvd (8192::nat) \<and>
   \<not> overlap (8192, order_exp 8192) (0, 12)"
proof -
  let ?st = "fst (the (run [Alloc 4096] (buddy_init startup, [])))"
  have r: "run [Alloc 4096] (buddy_init startup, []) = Some (?st, [(0, 12)])"
    by (simp add: run_defs order_exp_4096)
  have "\<exists>st'. buddy_alloc 8192 ?st = Inr (Addr 8192, st')"
    by (simp add: run_defs order_exp_4096 order_exp_8192)
  then obtain st' where a: "buddy_alloc 8192 ?st = Inr (Addr 8192, st')"
    by blast
  from alloc_result_aligned_and_disjoint [OF r a] r a show ?thesis
    by simp
qed

text \<open>
  C6 (what a splitting \<^verbatim>\<open>buddy_alloc\<close> writes). As stated the claim fails: \<^verbatim>\<open>split\<close>
  links each upper half into the list one order down but writes no \<^verbatim>\<open>block_size\<close>. After
  one request of 4096 bytes from the initial state, pages 1, 2, 4, .. 128 are in the
  lists of the orders 12 .. 19, and the order field of page 1 and of page 128 is still
  \<^verbatim>\<open>-1\<close>.
\<close>

theorem split_leaves_order_field:
  "map_option free_lists (run [Alloc 4096] (buddy_init startup, []))
     = Some [[1], [2], [4], [8], [16], [32], [64], [128], []] \<and>
   map_option (order_field 1) (run [Alloc 4096] (buddy_init startup, [])) = Some (- 1) \<and>
   map_option (order_field 128) (run [Alloc 4096] (buddy_init startup, [])) = Some (- 1)"
  by (simp add: run_defs order_exp_4096 observe_defs)

text \<open>
  C6, amended. When the first non-empty list is that of an order \<^verbatim>\<open>k\<close> above the target
  order \<^verbatim>\<open>o = order_exp(size)\<close>, with first record \<^verbatim>\<open>e\<close>: the call returns the address
  of \<^verbatim>\<open>e\<close>; for every order \<^verbatim>\<open>j\<close> with \<^verbatim>\<open>o <= j < k\<close> the buddy of \<^verbatim>\<open>e\<close> at order
  \<^verbatim>\<open>j\<close> is linked into the list of order \<^verbatim>\<open>j\<close> (the upper half, at the address of
  \<^verbatim>\<open>e\<close> plus \<^verbatim>\<open>2^j\<close>, when the block is aligned to its size); and the only page record
  written is that of \<^verbatim>\<open>e\<close>, whose order field becomes \<^verbatim>\<open>o\<close>. The order fields of the
  split-off halves keep their previous values.
\<close>

theorem split_links_upper_halves:
  assumes "order_exp sz < k" and "k \<le> MAX_ORDER" and "free_area st k \<noteq> []"
    and "\<forall>i. order_exp sz \<le> i \<and> i < k \<longrightarrow> free_area st i = []"
    and "e = hd (free_area st k)" and "e < PAGE_NUM" and "page_index (g_pages st e) = e"
  shows "\<exists>st'. buddy_alloc sz st = Inr (Addr (block_address (g_pages st e)), st') \<and>
     (\<forall>j. order_exp sz \<le> j \<and> j < k \<longrightarrow>
        free_area st' j = [ADDR_TO_PAGE (BUDDY_ADDR (PAGE_TO_ADDR e) j)]) \<and>
     g_pages st' = (g_pages st)(e := (g_pages st e)\<lparr>block_size := int (order_exp sz)\<rparr>) \<and>
     (2 ^ k dvd PAGE_TO_ADDR e \<longrightarrow>
        (\<forall>j. order_exp sz \<le> j \<and> j < k \<longrightarrow> BUDDY_ADDR (PAGE_TO_ADDR e) j = PAGE_TO_ADDR e + 2 ^ j))"
proof -
  have b: "buddy_alloc sz st = alloc_loop k (order_exp sz) st"
    using assms by (intro buddy_alloc_first_nonempty) auto
  have "\<exists>st'. alloc_loop k (order_exp sz) st
        = Inr (Addr (block_address (g_pages st (hd (free_area st k)))), st')
     \<and> g_pages st' = (g_pages st)(hd (free_area st k) :=
                         (g_pages st (hd (free_area st k)))\<lparr>block_size := int (order_exp sz)\<rparr>)
     \<and> free_area st' = (\<lambda>j. if order_exp sz \<le> j \<and> j < k
          then ADDR_TO_PAGE (BUDDY_ADDR (PAGE_TO_ADDR (page_index (g_pages st (hd (free_area st k))))) j)
                 # free_area st j
          else if j = k then tl (free_area st k) else free_area st j)"
    using assms order_exp_range [of sz] by (intro alloc_loop_larger) auto
  then obtain st' where r: "alloc_loop k (order_exp sz) st = Inr (Addr (block_address (g_pages st e)), st')"
    and g: "g_pages st' = (g_pages st)(e := (g_pages st e)\<lparr>block_size := int (order_exp sz)\<rparr>)"
    and f: "free_area st' = (\<lambda>j. if order_exp sz \<le> j \<and> j < k
          then ADDR_TO_PAGE (BUDDY_ADDR (PAGE_TO_ADDR e) j) # free_area st j
          else if j = k then tl (free_area st k) else free_area st j)"
    unfolding assms(5) [symmetric] assms(7) by blast
  have "\<forall>j. order_exp sz \<le> j \<and> j < k \<longrightarrow>
        free_area st' j = [ADDR_TO_PAGE (BUDDY_ADDR (PAGE_TO_ADDR e) j)]"
    unfolding f using assms(4) by simp
  moreover have "BUDDY_ADDR (PAGE_TO_ADDR e) j = PAGE_TO_ADDR e + 2 ^ j"
    if "2 ^ k dvd PAGE_TO_ADDR e" and "j < k" for j
  proof -
    from that(2) have "(2::nat) ^ Suc j dvd 2 ^ k"
      by (intro le_imp_power_dvd) simp
    then have "2 ^ Suc j dvd PAGE_TO_ADDR e"
      using that(1) by (rule dvd_trans)
    then show ?thesis
      unfolding BUDDY_ADDR_def by (rule xor_exp_aligned)
  qed
  ultimately show ?thesis
    using b r g by auto
qed

theorem split_links_upper_halves_witness:
  "\<exists>st'. buddy_alloc 4096 (buddy_init startup) = Inr (Addr 0, st') \<and>
     free_area st' 12 = [1] \<and> free_area st' 19 = [128] \<and>
     block_size (g_pages st' 0) = 12 \<and> g_pages st' 1 = g_pages (buddy_init startup) 1"
proof -
  have h: "order_exp 4096 < 20" "20 \<le> MAX_ORDER" "free_area (buddy_init startup) 20 \<noteq> []"
    "\<forall>i. order_exp 4096 \<le> i \<and> i < 20 \<longrightarrow> free_area (buddy_init startup) i = []"
    "0 = hd (free_area (buddy_init startup) 20)" "0 < PAGE_NUM"
    "page_index (g_pages (buddy_init startup) 0) = 0"
    by (simp_all add: order_exp_4096 buddy_init_eq const_defs)
  from split_links_upper_halves [OF h] obtain st' where
    a: "buddy_alloc 4096 (buddy_init startup) = Inr (Addr (block_address (g_pages (buddy_init startup) 0)), st')"
    and l: "\<forall>j. order_exp 4096 \<le> j \<and> j < 20 \<longrightarrow>
        free_area st' j = [ADDR_TO_PAGE (BUDDY_ADDR (PAGE_TO_ADDR 0) j)]"
    and g: "g_pages st' = (g_pages (buddy_init startup))
        (0 := (g_pages (buddy_init startup) 0)\<lparr>block_size := int (order_exp 4096)\<rparr>)"
    by blast
  from l have "free_area st' 12 = [1]" "free_area st' 19 = [128]"
    by (simp_all add: order_exp_4096 const_defs)
  with a g show ?thesis
    by (simp add: order_exp_4096 buddy_init_eq)
qed

text \<open>
  C7 (after every \<^verbatim>\<open>buddy_free\<close> the released block is in exactly one free list). The
  same defect as in C1 breaks it: the block of order 13 at address 8192 is released
  with the stale order 12 in its record. Page 2 goes into the list of order 12, beside
  page 1, and the upper half of the released block (page 3) is in no list.
\<close>

theorem released_block_not_listed:
  "map_option (\<lambda>c. (snd c, free_lists c, covered c 12288))
     (run [Alloc 8192, Alloc 4096, Free 0, Free 8192, Alloc 4096, Alloc 8192, Free 8192]
        (buddy_init startup, []))
   = Some ([(0, 12)], [[2, 1], [], [4], [8], [16], [32], [64], [128], []], False)"
  by (simp add: run_defs order_exp_4096 order_exp_8192 observe_defs)



text \<open>
  C9 (every call ends after at most \<^verbatim>\<open>MAX_ORDER - MIN_ORDER\<close> split or merge steps). Two
  requests of 5000 bytes are served with the two halves of the lowest block of order 13:
  the first by splitting the arena, which writes \<^verbatim>\<open>block_size = 13\<close> into page 0, the
  second with page 2 from the list of order 13, on the branch \<^verbatim>\<open>i == order\<close>, which does
  not write \<^verbatim>\<open>block_size\<close>. \<^verbatim>\<open>buddy_free\<close> of the first block returns, with no merge, as
  its buddy is in use. \<^verbatim>\<open>buddy_free\<close> of the second block, which is in use and has never
  been released, reads the order \<^verbatim>\<open>-1\<close> and starts its loop at \<^verbatim>\<open>i = -1\<close>: the first
  iteration walks \<^verbatim>\<open>free_area[-1]\<close>, which is no list of the allocator, so this call
  has no defined end and merges nothing, although the two halves are now both released.
  The calls for which the bound holds are those of \<^verbatim>\<open>call_steps_bounded\<close>.
\<close>

theorem free_of_second_half_has_no_defined_end:
  "map_option (\<lambda>c. (snd c, free_lists c, order_field 2 c, buddy_free 8192 (fst c)))
     (run [Alloc 5000, Alloc 5000, Free 0] (buddy_init startup, []))
   = Some ([(8192, 13)], [[], [0], [4], [8], [16], [32], [64], [128], []], - 1,
           Inl Out_of_bounds) \<and>
   run [Alloc 5000, Alloc 5000, Free 0, Free 8192] (buddy_init startup, []) = None"
  by (simp add: run_defs order_exp_5000 observe_defs)

text \<open>
  C10 (the order that \<^verbatim>\<open>buddy_free\<close> reads lies in \<^verbatim>\<open>MIN_ORDER .. MAX_ORDER\<close>). After
  two requests of 4096 bytes the second block (page 1, address 4096) was taken from the
  list of order 12 without a write to \<^verbatim>\<open>block_size\<close>, which is still the \<^verbatim>\<open>-1\<close> of
  \<^verbatim>\<open>buddy_init\<close>. Freeing it starts the loop at \<^verbatim>\<open>i = -1\<close>: the access
  \<^verbatim>\<open>free_area[-1]\<close> is outside the array.
\<close>

theorem free_reads_order_minus_one:
  "map_option (\<lambda>c. (snd c, order_field 1 c, buddy_free 4096 (fst c)))
     (run [Alloc 4096, Alloc 4096] (buddy_init startup, []))
   = Some ([(4096, 12), (0, 12)], - 1, Inl Out_of_bounds)"
  by (simp add: run_defs order_exp_4096 observe_defs)

end
